theory Spec2Isabelle
  imports Complex_Main "HOL-Library.Char_ord" "HOL-Library.List_Lexorder"
begin

section \<open>Python values used by the services\<close>

text \<open>
  Exchange rates are Python floats. The model keeps the exact real value of a finite
  float and the two infinities the code starts its running extrema from; the result of
  \<^verbatim>\<open>inf - inf\<close> is \<open>NaN\<close>. A finite float is written as its real value; the rounding
  of a difference is made explicit in \<open>float_sub\<close> below.
\<close>

datatype pyfloat = NaN | NegInf | Fin real | PosInf

text \<open>Python's \<^verbatim>\<open>a < b\<close> on floats; every comparison with \<open>NaN\<close> is false.\<close>

fun flt :: "pyfloat \<Rightarrow> pyfloat \<Rightarrow> bool" where
  "flt NaN _ = False"
| "flt _ NaN = False"
| "flt NegInf NegInf = False"
| "flt NegInf _ = True"
| "flt (Fin a) (Fin b) = (a < b)"
| "flt (Fin a) PosInf = True"
| "flt (Fin a) NegInf = False"
| "flt PosInf _ = False"

text \<open>
  The builtins \<^verbatim>\<open>min(a, b)\<close> and \<^verbatim>\<open>max(a, b)\<close> keep the first argument unless the
  second is strictly smaller (strictly larger).
\<close>

definition py_min :: "pyfloat \<Rightarrow> pyfloat \<Rightarrow> pyfloat" where
  "py_min a b = (if flt b a then b else a)"

definition py_max :: "pyfloat \<Rightarrow> pyfloat \<Rightarrow> pyfloat" where
  "py_max a b = (if flt a b then b else a)"

text \<open>
  Float subtraction \<^verbatim>\<open>a - b\<close> where the difference of two finite floats is itself a
  float and needs no rounding.
\<close>

fun fsub :: "pyfloat \<Rightarrow> pyfloat \<Rightarrow> pyfloat" where
  "fsub (Fin a) (Fin b) = Fin (a - b)"
| "fsub (Fin a) PosInf = NegInf"
| "fsub (Fin a) NegInf = PosInf"
| "fsub PosInf (Fin b) = PosInf"
| "fsub PosInf NegInf = PosInf"
| "fsub NegInf (Fin b) = NegInf"
| "fsub NegInf PosInf = NegInf"
| "fsub _ _ = NaN"

text \<open>Truthiness of a float, as \<^verbatim>\<open>if value\<close> tests it: only zero is false.\<close>

fun float_truthy :: "pyfloat \<Rightarrow> bool" where
  "float_truthy (Fin r) = (r \<noteq> 0)"
| "float_truthy _ = True"

section \<open>Largest increase and decrease of one rate series\<close>

text \<open>
  \<^verbatim>\<open>_find_largest_increase_and_decrease\<close> (report_generator_service.py): one pass over
  the series with the state \<open>(inc_min, max_increase, dec_max, max_decrease)\<close>, starting
  from \<open>(inf, 0, -inf, 0)\<close>. \<open>find_step\<close> is the loop body.
\<close>

type_synonym find_state = "pyfloat \<times> pyfloat \<times> pyfloat \<times> pyfloat"

fun find_step :: "find_state \<Rightarrow> real \<Rightarrow> find_state" where
  "find_step (inc_min, max_increase, dec_max, max_decrease) rate =
     (let inc_min' = py_min inc_min (Fin rate);
          max_increase' = py_max max_increase (fsub (Fin rate) inc_min');
          dec_max' = py_max dec_max (Fin rate);
          max_decrease' = py_max max_decrease (fsub dec_max' (Fin rate))
      in (inc_min', max_increase', dec_max', max_decrease'))"

definition find_largest_increase_and_decrease :: "real list \<Rightarrow> pyfloat \<times> pyfloat" where
  "find_largest_increase_and_decrease pd_series =
     (case foldl find_step (PosInf, Fin 0, NegInf, Fin 0) pd_series of
        (inc_min, max_increase, dec_max, max_decrease) \<Rightarrow> (max_increase, max_decrease))"

text \<open>The differences the series offers: a later rate minus an earlier one, and the reverse.\<close>

definition increases :: "real list \<Rightarrow> real set" where
  "increases rs = {rs ! j - rs ! i | i j. i \<le> j \<and> j < length rs}"

definition decreases :: "real list \<Rightarrow> real set" where
  "decreases rs = {rs ! i - rs ! j | i j. i \<le> j \<and> j < length rs}"

subsection \<open>The scan with rounded subtraction\<close>

text \<open>
  The difference of two finite floats is the real difference rounded to a float, or an
  infinity when it is out of range. \<open>fl\<close> is this rounding. Of the rounding only three
  facts are used, all true of round-to-nearest in binary64: the result is never
  \<open>NaN\<close>, rounding is monotone, and integers of magnitude up to \<open>2\<^sup>5\<^sup>3\<close> are floats and
  round to themselves. \<open>float_sub fl\<close> is the subtraction \<^verbatim>\<open>a - b\<close> with that rounding;
  \<open>fsub\<close> above is the instance without rounding, \<open>float_sub Fin\<close>.
\<close>

definition float_rounding :: "(real \<Rightarrow> pyfloat) \<Rightarrow> bool" where
  "float_rounding fl =
     ((\<forall>x. fl x \<noteq> NaN) \<and>
      (\<forall>x y. x \<le> y \<longrightarrow> \<not> flt (fl y) (fl x)) \<and>
      (\<forall>n :: int. \<bar>n\<bar> \<le> 2 ^ 53 \<longrightarrow> fl (of_int n) = Fin (of_int n)))"

fun float_sub :: "(real \<Rightarrow> pyfloat) \<Rightarrow> pyfloat \<Rightarrow> pyfloat \<Rightarrow> pyfloat" where
  "float_sub fl (Fin a) (Fin b) = fl (a - b)"
| "float_sub fl (Fin a) PosInf = NegInf"
| "float_sub fl (Fin a) NegInf = PosInf"
| "float_sub fl PosInf (Fin b) = PosInf"
| "float_sub fl PosInf NegInf = PosInf"
| "float_sub fl NegInf (Fin b) = NegInf"
| "float_sub fl NegInf PosInf = NegInf"
| "float_sub fl _ _ = NaN"

text \<open>
  \<^verbatim>\<open>_find_largest_increase_and_decrease\<close> with the rounding of its two subtractions:
  the loop body and the function.
\<close>

fun find_step_rounded :: "(real \<Rightarrow> pyfloat) \<Rightarrow> find_state \<Rightarrow> real \<Rightarrow> find_state" where
  "find_step_rounded fl (inc_min, max_increase, dec_max, max_decrease) rate =
     (let inc_min' = py_min inc_min (Fin rate);
          max_increase' = py_max max_increase (float_sub fl (Fin rate) inc_min');
          dec_max' = py_max dec_max (Fin rate);
          max_decrease' = py_max max_decrease (float_sub fl dec_max' (Fin rate))
      in (inc_min', max_increase', dec_max', max_decrease'))"

definition find_largest_increase_and_decrease_rounded ::
    "(real \<Rightarrow> pyfloat) \<Rightarrow> real list \<Rightarrow> pyfloat \<times> pyfloat" where
  "find_largest_increase_and_decrease_rounded fl pd_series =
     (case foldl (find_step_rounded fl) (PosInf, Fin 0, NegInf, Fin 0) pd_series of
        (inc_min, max_increase, dec_max, max_decrease) \<Rightarrow> (max_increase, max_decrease))"

text \<open>
  The rounded differences the series offers, and the largest element of a set of floats:
  a member that no member exceeds.
\<close>

definition rounded_increases :: "(real \<Rightarrow> pyfloat) \<Rightarrow> real list \<Rightarrow> pyfloat set" where
  "rounded_increases fl rs = {fl (rs ! j - rs ! i) | i j. i \<le> j \<and> j < length rs}"

definition rounded_decreases :: "(real \<Rightarrow> pyfloat) \<Rightarrow> real list \<Rightarrow> pyfloat set" where
  "rounded_decreases fl rs = {fl (rs ! i - rs ! j) | i j. i \<le> j \<and> j < length rs}"

definition largest_of :: "pyfloat set \<Rightarrow> pyfloat \<Rightarrow> bool" where
  "largest_of S m = (m \<in> S \<and> (\<forall>x \<in> S. \<not> flt m x))"

text \<open>
  For examples: a rounding to the nearest multiple of a quarter (halves upwards). It
  satisfies \<open>float_rounding\<close> and does round: 3/10 becomes 1/4.
\<close>

definition quarter_rounding :: "real \<Rightarrow> pyfloat" where
  "quarter_rounding x = Fin (of_int \<lfloor>x * 4 + 1 / 2\<rfloor> / 4)"

section \<open>Dates and Python exceptions\<close>

text \<open>
  A \<^verbatim>\<open>datetime.date\<close> is modelled by its proleptic Gregorian ordinal
  (\<^verbatim>\<open>date.toordinal()\<close>): adding \<^verbatim>\<open>timedelta(days=n)\<close> adds \<open>n\<close>, the difference of
  two dates is a number of days, and dates compare as their ordinals do. \<open>ymd\<close> is
  \<^verbatim>\<open>date(y, m, d).toordinal()\<close>, so that examples can be written with calendar dates.
  A date object is always true in a condition, so \<^verbatim>\<open>if prev_date\<close> only tests for
  \<^verbatim>\<open>None\<close>.
\<close>

type_synonym date = int

definition is_leap :: "int \<Rightarrow> bool" where
  "is_leap y = (y mod 4 = 0 \<and> (y mod 100 \<noteq> 0 \<or> y mod 400 = 0))"

definition days_before_year :: "int \<Rightarrow> int" where
  "days_before_year y = (y - 1) * 365 + (y - 1) div 4 - (y - 1) div 100 + (y - 1) div 400"

definition days_before_month :: "int \<Rightarrow> int \<Rightarrow> int" where
  "days_before_month y m =
     sum_list (take (nat (m - 1))
       [31, if is_leap y then 29 else 28, 31, 30, 31, 30, 31, 31, 30, 31, 30, 31])"

definition ymd :: "int \<Rightarrow> int \<Rightarrow> int \<Rightarrow> date" where
  "ymd y m d = days_before_year y + days_before_month y m + d"

type_synonym interval = "date \<times> date"

text \<open>
  Exceptions. \<open>request_error\<close> lists what can be raised inside the \<^verbatim>\<open>try\<close> block of
  one HTTP request: the classes of \<^verbatim>\<open>requests.exceptions\<close> (\<open>HTTPError\<close> with the status
  code of its response), and \<open>OtherException\<close> for an exception of any class outside that
  hierarchy, given by its class name. \<open>exn\<close> lists what can leave the modelled functions.
\<close>

datatype request_error =
    Timeout | ConnectTimeout | ReadTimeout
  | ConnectionError | SSLError | ProxyError
  | HTTPError nat
  | TooManyRedirects | InvalidURL | JSONDecodeError
  | RequestException
  | OtherException string

datatype exn =
    TypeError | IndexError | IntegrityError | OperationalError
  | SystemExit string
  | Propagated request_error

section \<open>Missing date intervals\<close>

text \<open>
  \<^verbatim>\<open>_calculate_missing_date_intervals\<close> (data_collection_service.py). The iterator of
  data frames with the single column \<^verbatim>\<open>date\<close> is a list of chunks, each the list of
  its dates. The state of the loops is \<open>(prev_date, missing_date_intervals)\<close>.

  \<open>scan_dates\<close> is the inner loop over one chunk's dates.
\<close>

type_synonym gap_state = "date option \<times> interval list"

fun scan_dates :: "date \<Rightarrow> gap_state \<Rightarrow> date list \<Rightarrow> gap_state" where
  "scan_dates start_date (prev_date, missing) [] = (prev_date, missing)"
| "scan_dates start_date (prev_date, missing) (d # ds) =
     scan_dates start_date
       (Some d,
        (case prev_date of
           Some p \<Rightarrow> if d - 1 > p then missing @ [(p + 1, d - 1)] else missing
         | None \<Rightarrow> if d > start_date then missing @ [(start_date, d - 1)] else missing))
       ds"

text \<open>
  \<open>scan_chunks\<close> is the outer loop with its early return, followed by the code after
  the loop: the comparison \<^verbatim>\<open>prev_date < end_date\<close> raises \<^verbatim>\<open>TypeError\<close> when
  \<^verbatim>\<open>prev_date\<close> is still \<^verbatim>\<open>None\<close>.
\<close>

fun scan_chunks :: "date \<Rightarrow> date \<Rightarrow> gap_state \<Rightarrow> date list list \<Rightarrow> exn + interval list" where
  "scan_chunks start_date end_date (prev_date, missing) [] =
     (case prev_date of
        None \<Rightarrow> Inl TypeError
      | Some p \<Rightarrow> Inr (if p < end_date then missing @ [(p + 1, end_date)] else missing))"
| "scan_chunks start_date end_date (prev_date, missing) (data_chunk # rest) =
     (if data_chunk = [] \<and> missing = [] then Inr [(start_date, end_date)]
      else scan_chunks start_date end_date
             (scan_dates start_date (prev_date, missing) data_chunk) rest)"

definition calculate_missing_date_intervals ::
    "date \<Rightarrow> date \<Rightarrow> date list list \<Rightarrow> exn + interval list" where
  "calculate_missing_date_intervals start_date end_date dates_with_records_iter =
     scan_chunks start_date end_date (None, []) dates_with_records_iter"

text \<open>The dates an interval list covers, and what the claims ask of a list of gaps.\<close>

definition dates_of :: "interval list \<Rightarrow> date set" where
  "dates_of ivs = (\<Union>(a, b) \<in> set ivs. {a..b})"

definition ascending_disjoint :: "interval list \<Rightarrow> bool" where
  "ascending_disjoint ivs =
     (list_all (\<lambda>(a, b). a \<le> b) ivs \<and> sorted_wrt (\<lambda>(a, b) (c, d). b < c) ivs)"

text \<open>
  The loop invariant once a date \<open>p\<close> has been read: the gaps found so far are ascending
  and disjoint, lie between the start date and \<open>p\<close>, and together with the dates read so
  far (\<open>D\<close>) make up exactly the dates from the start date to \<open>p\<close>.
\<close>

definition gap_inv :: "date \<Rightarrow> date \<Rightarrow> interval list \<Rightarrow> date set \<Rightarrow> bool" where
  "gap_inv s p missing D =
     (ascending_disjoint missing \<and> (\<forall>(a, b) \<in> set missing. s \<le> a \<and> b < p) \<and>
      p \<in> D \<and> dates_of missing \<union> D = {s..p} \<and> dates_of missing \<inter> D = {})"

section \<open>Range chunker\<close>

text \<open>
  \<^verbatim>\<open>split_into_chunks_and_send_requests\<close> (api_communication_service.py) with
  \<^verbatim>\<open>max_len = 93\<close>. \<open>ceil_div a b\<close> is \<^verbatim>\<open>ceil(a / b)\<close> for a positive \<open>b\<close>; the quotient
  of two \<^verbatim>\<open>timedelta\<close>s of whole days is the correctly rounded quotient of two integers,
  whose ceiling is the exact one for every pair of dates. \<open>split_into_chunks\<close> gives the
  chunks one date range is requested in, in the order of the requests.
\<close>

definition max_len :: int where
  "max_len = 93"

definition ceil_div :: "int \<Rightarrow> int \<Rightarrow> int" where
  "ceil_div a b = - ((- a) div b)"

definition split_into_chunks :: "interval \<Rightarrow> interval list" where
  "split_into_chunks r =
     (case r of (start_date, end_date) \<Rightarrow>
        if end_date - start_date \<le> max_len then [(start_date, end_date)]
        else
          let date_chunks_num = ceil_div (end_date - start_date) max_len in
          map (\<lambda>i.
                let chunk_start_date = start_date + max_len * int i;
                    chunk_end_date = start_date + (max_len * (int i + 1) - 1)
                in (chunk_start_date,
                    if chunk_end_date < end_date then chunk_end_date else end_date))
              [0..<nat date_chunks_num])"

text \<open>The chunk with index \<open>i\<close> of a range longer than the maximum, as the loop builds it.\<close>

definition chunk_at :: "date \<Rightarrow> date \<Rightarrow> nat \<Rightarrow> interval" where
  "chunk_at s e i = (s + max_len * int i, min (s + (max_len * (int i + 1) - 1)) e)"

section \<open>Requests to the NBP API\<close>

text \<open>
  The handlers of \<^verbatim>\<open>_send_request_to_nbp_api\<close> match by class: an \<^verbatim>\<open>except C\<close> clause
  catches the instances of \<open>C\<close> and of its subclasses. In \<^verbatim>\<open>requests.exceptions\<close>,
  \<^verbatim>\<open>ConnectTimeout\<close> derives from both \<^verbatim>\<open>ConnectionError\<close> and \<^verbatim>\<open>Timeout\<close>,
  \<^verbatim>\<open>ReadTimeout\<close> from \<^verbatim>\<open>Timeout\<close>, \<^verbatim>\<open>SSLError\<close> and \<^verbatim>\<open>ProxyError\<close> from
  \<^verbatim>\<open>ConnectionError\<close>, and every class of the library from \<^verbatim>\<open>RequestException\<close>.
\<close>

fun is_Timeout :: "request_error \<Rightarrow> bool" where
  "is_Timeout Timeout = True"
| "is_Timeout ConnectTimeout = True"
| "is_Timeout ReadTimeout = True"
| "is_Timeout _ = False"

fun is_ConnectionError :: "request_error \<Rightarrow> bool" where
  "is_ConnectionError ConnectionError = True"
| "is_ConnectionError ConnectTimeout = True"
| "is_ConnectionError SSLError = True"
| "is_ConnectionError ProxyError = True"
| "is_ConnectionError _ = False"

fun is_HTTPError :: "request_error \<Rightarrow> bool" where
  "is_HTTPError (HTTPError status_code) = True"
| "is_HTTPError _ = False"

fun is_RequestException :: "request_error \<Rightarrow> bool" where
  "is_RequestException (OtherException name) = False"
| "is_RequestException _ = True"

text \<open>
  What the \<^verbatim>\<open>try\<close> block of one request meets: \<^verbatim>\<open>requests.get\<close>,
  \<^verbatim>\<open>raise_for_status\<close> and \<^verbatim>\<open>response.json()\<close> either give a JSON object, or another
  JSON value (for this API a list of objects), or one of them raises. The type \<open>'r\<close> is
  that of a JSON object of the API.
\<close>

datatype 'r http_outcome = JsonDict 'r | JsonList "'r list" | Raises request_error

datatype log_level = LogDebug | LogWarning

text \<open>
  \<^verbatim>\<open>_send_request_to_nbp_api\<close>: the result is the log records written and the returned
  list, or the exception that leaves the function.
\<close>

definition send_request_to_nbp_api :: "'r http_outcome \<Rightarrow> exn + (log_level list \<times> 'r list)" where
  "send_request_to_nbp_api outcome =
     (case outcome of
        JsonDict response_json \<Rightarrow> Inr ([], [response_json])
      | JsonList response_json \<Rightarrow> Inr ([], response_json)
      | Raises e \<Rightarrow>
          if is_Timeout e then Inr ([LogWarning], [])
          else if is_ConnectionError e then Inr ([LogWarning], [])
          else if is_HTTPError e then
            Inr (if e = HTTPError 404 then [LogDebug, LogDebug] else [LogDebug], [])
          else if is_RequestException e then Inr ([LogWarning], [])
          else Inl (Propagated e))"

text \<open>
  A request is the endpoint with the two dates of the URI. \<open>chunk_requests\<close> lists the
  requests \<^verbatim>\<open>split_into_chunks_and_send_requests(uri)\<close> sends for the date ranges, in
  order; \<open>send_all\<close> sends them one after the other (each call is made while the chain is
  being built, so an exception of one request ends the whole function) and concatenates
  the returned lists. \<open>remote\<close> is the behaviour of the server and the network.
\<close>

type_synonym request = "string \<times> date \<times> date"

definition chunk_requests :: "string \<Rightarrow> interval list \<Rightarrow> request list" where
  "chunk_requests uri dates_ranges =
     concat (map (\<lambda>r. map (\<lambda>(chunk_start_date, chunk_end_date).
                              (uri, chunk_start_date, chunk_end_date))
                           (split_into_chunks r)) dates_ranges)"

fun send_all :: "(request \<Rightarrow> 'r http_outcome) \<Rightarrow> request list \<Rightarrow> exn + 'r list" where
  "send_all remote [] = Inr []"
| "send_all remote (q # qs) =
     (case send_request_to_nbp_api (remote q) of
        Inl e \<Rightarrow> Inl e
      | Inr (logs, response) \<Rightarrow>
          (case send_all remote qs of
             Inl e \<Rightarrow> Inl e
           | Inr responses \<Rightarrow> Inr (response @ responses)))"

text \<open>
  \<^verbatim>\<open>request_data_from_nbp_database\<close> with the default table \<open>A\<close>: one endpoint per
  currency code, or the tables endpoint when no code is given (\<^verbatim>\<open>None\<close> or an empty
  tuple).
\<close>

definition request_data_from_nbp_database ::
    "(request \<Rightarrow> 'r http_outcome) \<Rightarrow> interval list \<Rightarrow> string list option \<Rightarrow> exn + 'r list" where
  "request_data_from_nbp_database remote dates_ranges currency_codes =
     (case currency_codes of
        Some (c # cs) \<Rightarrow>
          send_all remote
            (concat (map (\<lambda>currency_code.
                       chunk_requests (''https://api.nbp.pl/api/exchangerates/rates/A/'' @ currency_code)
                         dates_ranges) (c # cs)))
      | _ \<Rightarrow>
          send_all remote
            (chunk_requests ''https://api.nbp.pl/api/exchangerates/tables/A'' dates_ranges))"

section \<open>The store of rate records\<close>

text \<open>
  A row of the table \<^verbatim>\<open>exchange_rates\<close>; \<open>date\<close> and \<open>currency_code\<close> are the primary
  key. The store maps each key present to its rate.
\<close>

record rate_record =
  date :: date
  currency_code :: string
  currency_rate :: real

type_synonym store = "(date \<times> string) \<rightharpoonup> real"

definition natural_key :: "rate_record \<Rightarrow> date \<times> string" where
  "natural_key r = (date r, currency_code r)"

text \<open>
  \<^verbatim>\<open>_DatabaseOp.insert\<close> builds
  \<^verbatim>\<open>sqlite_insert(table).values(input_data).on_conflict_do_nothing()\<close> and executes it in
  one committed transaction. The statement is modelled by its rows and its conflict
  clause.

  A statement with rows: SQLite takes the rows in order; a row whose primary key is
  already present (from the table or from an earlier row of the same statement) violates
  the uniqueness constraint: without a clause the statement fails with
  \<^verbatim>\<open>IntegrityError\<close> and nothing is committed, with \<^verbatim>\<open>ON CONFLICT DO NOTHING\<close> the row
  is skipped.

  A statement without rows (\<^verbatim>\<open>values([])\<close>) is rendered as
  \<^verbatim>\<open>INSERT INTO exchange_rates DEFAULT VALUES\<close>: with the conflict clause SQLite rejects
  it as a syntax error (\<^verbatim>\<open>OperationalError\<close>), without the clause the row of defaults
  violates the \<^verbatim>\<open>NOT NULL\<close> columns (\<^verbatim>\<open>IntegrityError\<close>). Nothing is committed.
\<close>

datatype conflict_clause = NoClause | OnConflictDoNothing

record insert_statement =
  stmt_values :: "rate_record list"
  on_conflict :: conflict_clause

definition sqlite_insert_values :: "rate_record list \<Rightarrow> insert_statement" where
  "sqlite_insert_values input_data = \<lparr>stmt_values = input_data, on_conflict = NoClause\<rparr>"

definition on_conflict_do_nothing :: "insert_statement \<Rightarrow> insert_statement" where
  "on_conflict_do_nothing stmt = stmt\<lparr>on_conflict := OnConflictDoNothing\<rparr>"

definition insert_row :: "conflict_clause \<Rightarrow> store \<Rightarrow> rate_record \<Rightarrow> exn + store" where
  "insert_row clause db r =
     (case db (natural_key r) of
        None \<Rightarrow> Inr (db(natural_key r \<mapsto> currency_rate r))
      | Some old \<Rightarrow>
          (case clause of
             NoClause \<Rightarrow> Inl IntegrityError
           | OnConflictDoNothing \<Rightarrow> Inr db))"

fun insert_rows :: "conflict_clause \<Rightarrow> store \<Rightarrow> rate_record list \<Rightarrow> exn + store" where
  "insert_rows clause db [] =
     (case clause of
        NoClause \<Rightarrow> Inl IntegrityError
      | OnConflictDoNothing \<Rightarrow> Inl OperationalError)"
| "insert_rows clause db [r] = insert_row clause db r"
| "insert_rows clause db (r # r' # rs) =
     (case insert_row clause db r of
        Inl e \<Rightarrow> Inl e
      | Inr db' \<Rightarrow> insert_rows clause db' (r' # rs))"

definition execute :: "store \<Rightarrow> insert_statement \<Rightarrow> exn + store" where
  "execute db stmt = insert_rows (on_conflict stmt) db (stmt_values stmt)"

definition DatabaseOp_insert :: "store \<Rightarrow> rate_record list \<Rightarrow> exn + store" where
  "DatabaseOp_insert db input_data =
     execute db (on_conflict_do_nothing (sqlite_insert_values input_data))"

text \<open>The store a call leaves behind: the committed one, or the old one when it raised.\<close>

definition store_after :: "store \<Rightarrow> exn + store \<Rightarrow> store" where
  "store_after db res = (case res of Inl e \<Rightarrow> db | Inr db' \<Rightarrow> db')"

text \<open>The rows of a statement as a map: for each key, the rate of its first row.\<close>

definition rows_map :: "rate_record list \<Rightarrow> store" where
  "rows_map rs = map_of (map (\<lambda>r. (natural_key r, currency_rate r)) rs)"

section \<open>Chunked query results\<close>

text \<open>
  \<^verbatim>\<open>_DatabaseOp._select\<close> reads a query with \<^verbatim>\<open>pandas.read_sql(..., chunksize=100)\<close>:
  the rows arrive in frames of at most 100 rows, and a query without rows arrives as one
  empty frame (the case the guard \<^verbatim>\<open>data_chunk.empty\<close> of the gap calculation is
  written for). The argument is the list of rows the query selects, in its order.
\<close>

function chunks_of :: "nat \<Rightarrow> 'a list \<Rightarrow> 'a list list" where
  "chunks_of n xs = (if n = 0 \<or> xs = [] then [] else take n xs # chunks_of n (drop n xs))"
  by pat_completeness auto
termination
  by (relation "measure (\<lambda>(n, xs). length xs)") auto

definition DatabaseOp_select :: "'a list \<Rightarrow> 'a list list" where
  "DatabaseOp_select rows = (if rows = [] then [[]] else chunks_of 100 rows)"

text \<open>
  The early return of the gap calculation takes an empty chunk for an empty result. It
  is harmless when every empty chunk arrives after a gap has shown: the dates \<open>seen\<close>
  before it are not just the days from the start date up to the last one seen.
  \<open>empty_chunks_after_gap\<close> says so of a stream; it holds of every stream without
  empty chunks.
\<close>

fun empty_chunks_after_gap :: "date \<Rightarrow> date list \<Rightarrow> date list list \<Rightarrow> bool" where
  "empty_chunks_after_gap start_date seen [] = True"
| "empty_chunks_after_gap start_date seen (data_chunk # rest) =
     ((data_chunk = [] \<longrightarrow> seen \<noteq> [] \<and> set seen \<noteq> {start_date..last seen}) \<and>
      empty_chunks_after_gap start_date (seen @ data_chunk) rest)"

section \<open>Collecting the missing data\<close>

text \<open>
  The two shapes of a response object of the API: the rates of one currency over several
  dates (the object has a non-empty \<^verbatim>\<open>code\<close>), and the table of all currencies for one
  date. \<^verbatim>\<open>_align_json_data_with_database_model\<close> tells them apart by the
  presence of \<^verbatim>\<open>code\<close>; effective dates are modelled after parsing.
\<close>

datatype response =
    CurrencyRates string "(date \<times> real) list"
  | RatesTable date "(string \<times> real) list"

definition reformat_json_for_single_currency_exchange_rates ::
    "string \<Rightarrow> (date \<times> real) list \<Rightarrow> rate_record list" where
  "reformat_json_for_single_currency_exchange_rates code rates =
     map (\<lambda>(effectiveDate, mid).
            \<lparr>date = effectiveDate, currency_code = code, currency_rate = mid\<rparr>) rates"

definition reformat_json_for_all_currencies_exchange_rates ::
    "date \<Rightarrow> (string \<times> real) list \<Rightarrow> rate_record list" where
  "reformat_json_for_all_currencies_exchange_rates effectiveDate rates =
     map (\<lambda>(code, mid).
            \<lparr>date = effectiveDate, currency_code = code, currency_rate = mid\<rparr>) rates"

definition align_json_data_with_database_model :: "response \<Rightarrow> rate_record list" where
  "align_json_data_with_database_model response_json =
     (case response_json of
        CurrencyRates code rates \<Rightarrow> reformat_json_for_single_currency_exchange_rates code rates
      | RatesTable effectiveDate rates \<Rightarrow>
          reformat_json_for_all_currencies_exchange_rates effectiveDate rates)"



text \<open>
  \<^verbatim>\<open>_collect_missing_data_from_nbp_api\<close>: every response is aligned and saved;
  \<open>data_collected\<close> tells whether there was any response. \<open>save_responses\<close> is the loop;
  an exception of an insert ends it (a response without rates gives the empty list of
  records, on which the insert raises).
\<close>

fun save_responses :: "store \<Rightarrow> response list \<Rightarrow> exn + store" where
  "save_responses db [] = Inr db"
| "save_responses db (response # rest) =
     (case DatabaseOp_insert db (align_json_data_with_database_model response) of
        Inl e \<Rightarrow> Inl e
      | Inr db' \<Rightarrow> save_responses db' rest)"

definition collect_missing_data_from_nbp_api ::
    "(request \<Rightarrow> response http_outcome) \<Rightarrow> store \<Rightarrow> interval list \<Rightarrow> string list option
      \<Rightarrow> exn + (bool \<times> store)" where
  "collect_missing_data_from_nbp_api remote db dates_ranges currency_codes =
     (case request_data_from_nbp_database remote dates_ranges currency_codes of
        Inl e \<Rightarrow> Inl e
      | Inr response_it \<Rightarrow>
          (case save_responses db response_it of
             Inl e \<Rightarrow> Inl e
           | Inr db' \<Rightarrow> Inr (response_it \<noteq> [], db')))"

text \<open>
  \<^verbatim>\<open>gather_data_for_date_range\<close>. \<open>dates_with_records_iter\<close> is what
  \<^verbatim>\<open>get_dates_with_records\<close> returned for the request: the frames of covered dates. The
  result is the store after the call, or the exception that ends it.
\<close>

definition not_available_message :: string where
  "not_available_message = ''Data for the requested time range is not available on the NBP server''"

definition gather_data_for_date_range ::
    "(request \<Rightarrow> response http_outcome) \<Rightarrow> store \<Rightarrow> date list list \<Rightarrow>
      date \<Rightarrow> date \<Rightarrow> string list option \<Rightarrow> exn + store" where
  "gather_data_for_date_range remote db dates_with_records_iter start_date end_date currency_codes =
     (case calculate_missing_date_intervals start_date end_date dates_with_records_iter of
        Inl e \<Rightarrow> Inl e
      | Inr missing_dates_ranges \<Rightarrow>
          if missing_dates_ranges \<noteq> [] then
            (case collect_missing_data_from_nbp_api remote db missing_dates_ranges currency_codes of
               Inl e \<Rightarrow> Inl e
             | Inr (is_data_collected, db') \<Rightarrow>
                 if \<not> is_data_collected \<and> missing_dates_ranges = [(start_date, end_date)]
                 then Inl (SystemExit not_available_message)
                 else Inr db')
          else Inr db)"

section \<open>Largest increase and decrease over the chunked rates\<close>

text \<open>
  \<^verbatim>\<open>_get_largest_exchange_rate_increase_and_decrease\<close> (report_generator_service.py). A
  data frame is the list of its rows. The code groups by a list holding one key,
  \<^verbatim>\<open>df_chunk.groupby([df_chunk['currency_code']])\<close>: iterating the groups gives each
  key as a tuple of length one (the code reads the currency as \<^verbatim>\<open>currency_code[0]\<close>
  when it writes the reports), while the index of \<^verbatim>\<open>grouped_chunks.last()\<close> holds
  the bare code, so that \<^verbatim>\<open>last_row.name\<close> is a string (the code wraps it as
  \<^verbatim>\<open>(last_row.name,)\<close> to look its group up). \<open>pykey\<close> keeps the two apart, with
  Python's equality: a tuple is never equal to a string or to \<^verbatim>\<open>None\<close>.
\<close>

datatype pykey = KNone | KStr string | KTuple "string list"

text \<open>The named tuple \<^verbatim>\<open>curr_map(curr_code, value)\<close>.\<close>

record 'v curr_map =
  curr_code :: pykey
  cm_value :: 'v

type_synonym extremum = "pyfloat curr_map"

type_synonym last_chunk = "rate_record list option curr_map"

text \<open>
  The groups of a frame: the distinct currency codes in sorted order, each with the rows
  of the frame that carry it, in the frame's order.
\<close>

definition groupby_currency_code :: "rate_record list \<Rightarrow> (string \<times> rate_record list) list" where
  "groupby_currency_code df_chunk =
     map (\<lambda>k. (k, filter (\<lambda>r. currency_code r = k) df_chunk))
         (sort (remdups (map currency_code df_chunk)))"

text \<open>\<^verbatim>\<open>pd.concat([last_chunk.value, df])\<close>; a \<^verbatim>\<open>None\<close> in the list is dropped.\<close>

definition pd_concat :: "rate_record list option \<Rightarrow> rate_record list \<Rightarrow> rate_record list" where
  "pd_concat carried df = (case carried of None \<Rightarrow> df | Some rows \<Rightarrow> rows @ df)"

text \<open>The body of the loop over the groups of one chunk.\<close>

definition group_step ::
    "last_chunk \<Rightarrow> extremum \<times> extremum \<Rightarrow> string \<times> rate_record list \<Rightarrow> extremum \<times> extremum" where
  "group_step last_chunk acc g =
     (case acc of (curr_max_inc, curr_max_dec) \<Rightarrow>
      case g of (k, group_df) \<Rightarrow>
        let currency_code = KTuple [k];
            df = (if currency_code = curr_code last_chunk
                  then pd_concat (cm_value last_chunk) group_df else group_df)
        in case find_largest_increase_and_decrease (map currency_rate df) of
             (max_inc, max_dec) \<Rightarrow>
               (if flt (cm_value curr_max_inc) max_inc
                then \<lparr>curr_code = currency_code, cm_value = max_inc\<rparr> else curr_max_inc,
                if flt (cm_value curr_max_dec) max_dec
                then \<lparr>curr_code = currency_code, cm_value = max_dec\<rparr> else curr_max_dec))"

text \<open>
  The body of the loop over the chunks. \<^verbatim>\<open>grouped_chunks.last().iloc[-1]\<close> raises
  \<^verbatim>\<open>IndexError\<close> on a frame without rows; otherwise it is the row of the last group,
  whose rows \<^verbatim>\<open>get_group\<close> returns.
\<close>

type_synonym analysis_state = "extremum \<times> extremum \<times> last_chunk"

definition chunk_step :: "analysis_state \<Rightarrow> rate_record list \<Rightarrow> exn + analysis_state" where
  "chunk_step st df_chunk =
     (case st of (curr_max_inc, curr_max_dec, last_chunk) \<Rightarrow>
        let grouped_chunks = groupby_currency_code df_chunk in
        case foldl (group_step last_chunk) (curr_max_inc, curr_max_dec) grouped_chunks of
          (curr_max_inc', curr_max_dec') \<Rightarrow>
            if grouped_chunks = [] then Inl IndexError
            else case last grouped_chunks of
                   (name, group_df) \<Rightarrow>
                     Inr (curr_max_inc', curr_max_dec',
                          \<lparr>curr_code = KStr name, cm_value = Some group_df\<rparr>))"

fun analyse_chunks :: "analysis_state \<Rightarrow> rate_record list list \<Rightarrow> exn + analysis_state" where
  "analyse_chunks st [] = Inr st"
| "analyse_chunks st (df_chunk # rest) =
     (case chunk_step st df_chunk of
        Inl e \<Rightarrow> Inl e
      | Inr st' \<Rightarrow> analyse_chunks st' rest)"

text \<open>The returned dictionary, as the list of its items in insertion order.\<close>

definition get_largest_exchange_rate_increase_and_decrease ::
    "rate_record list list \<Rightarrow> exn + (string \<times> extremum) list" where
  "get_largest_exchange_rate_increase_and_decrease df_iter =
     (case analyse_chunks
             (\<lparr>curr_code = KNone, cm_value = NegInf\<rparr>,
              \<lparr>curr_code = KNone, cm_value = NegInf\<rparr>,
              \<lparr>curr_code = KNone, cm_value = None\<rparr>) df_iter of
        Inl e \<Rightarrow> Inl e
      | Inr (curr_max_inc, curr_max_dec, last_chunk) \<Rightarrow>
          Inr [(''max_recorded_increase'', curr_max_inc),
               (''max_recorded_decrease'', curr_max_dec)])"

text \<open>
  For examples: the rows of one currency on consecutive days from a first date, with the
  given rates.
\<close>

fun series :: "string \<Rightarrow> date \<Rightarrow> real list \<Rightarrow> rate_record list" where
  "series code d [] = []"
| "series code d (r # rs) =
     \<lparr>date = d, currency_code = code, currency_rate = r\<rparr> # series code (d + 1) rs"

section \<open>Analytical reports\<close>

text \<open>
  Truthiness of a \<open>curr_code\<close> and the subscript \<^verbatim>\<open>curr_code[0]\<close>: the first component
  of a tuple, the first character of a string.
\<close>

fun key_truthy :: "pykey \<Rightarrow> bool" where
  "key_truthy KNone = False"
| "key_truthy (KStr s) = (s \<noteq> [])"
| "key_truthy (KTuple t) = (t \<noteq> [])"

fun key_first :: "pykey \<Rightarrow> exn + string" where
  "key_first (KTuple (x # xs)) = Inr x"
| "key_first (KStr (c # cs)) = Inr [c]"
| "key_first KNone = Inl TypeError"
| "key_first _ = Inl IndexError"

datatype jvalue = JNull | JNum pyfloat | JStr string

text \<open>
  \<^verbatim>\<open>_generate_json_report_with_analytical_data\<close>: the list handed to \<^verbatim>\<open>json.dumps\<close>,
  one dictionary per change type. \<open>json_currency_report\<close> is the body of the loop.
\<close>

definition json_currency_report :: "string \<Rightarrow> extremum \<Rightarrow> exn + (string \<times> jvalue) list" where
  "json_currency_report change_type x =
     (if float_truthy (cm_value x) \<and> key_truthy (curr_code x) then
        (case key_first (curr_code x) of
           Inl e \<Rightarrow> Inl e
         | Inr code \<Rightarrow> Inr [(change_type, JNum (cm_value x)), (''currency_code'', JStr code)])
      else Inr [(change_type, JNull)])"

fun generate_json_report_with_analytical_data ::
    "(string \<times> extremum) list \<Rightarrow> exn + (string \<times> jvalue) list list" where
  "generate_json_report_with_analytical_data [] = Inr []"
| "generate_json_report_with_analytical_data ((change_type, x) # rest) =
     (case json_currency_report change_type x of
        Inl e \<Rightarrow> Inl e
      | Inr currency_report \<Rightarrow>
          (case generate_json_report_with_analytical_data rest of
             Inl e \<Rightarrow> Inl e
           | Inr json_report \<Rightarrow> Inr (currency_report # json_report)))"

text \<open>
  \<^verbatim>\<open>_generate_csv_report_with_analytical_data\<close>: the lines written, each a label and a
  value separated by a comma, or an empty line.
\<close>

datatype csv_line = Line string jvalue | EmptyLine

definition csv_currency_report :: "string \<Rightarrow> extremum \<Rightarrow> exn + csv_line list" where
  "csv_currency_report change_type x =
     (if float_truthy (cm_value x) \<and> key_truthy (curr_code x) then
        (case key_first (curr_code x) of
           Inl e \<Rightarrow> Inl e
         | Inr code \<Rightarrow>
             Inr [Line change_type (JNum (cm_value x)), Line ''currency_code'' (JStr code),
                  EmptyLine])
      else Inr [Line change_type JNull])"

fun generate_csv_report_with_analytical_data ::
    "(string \<times> extremum) list \<Rightarrow> exn + csv_line list" where
  "generate_csv_report_with_analytical_data [] = Inr []"
| "generate_csv_report_with_analytical_data ((change_type, x) # rest) =
     (case csv_currency_report change_type x of
        Inl e \<Rightarrow> Inl e
      | Inr written \<Rightarrow>
          (case generate_csv_report_with_analytical_data rest of
             Inl e \<Rightarrow> Inl e
           | Inr csv_report \<Rightarrow> Inr (written @ csv_report)))"

section \<open>Properties of the rate-series scan\<close>

lemma finite_increases: "finite (increases rs)"
proof -
  have "increases rs \<subseteq> (\<lambda>(i, j). rs ! j - rs ! i) ` ({..<length rs} \<times> {..<length rs})"
    by (auto simp: increases_def)
  then show ?thesis by (rule finite_subset) simp
qed

lemma finite_decreases: "finite (decreases rs)"
proof -
  have "decreases rs \<subseteq> (\<lambda>(i, j). rs ! i - rs ! j) ` ({..<length rs} \<times> {..<length rs})"
    by (auto simp: decreases_def)
  then show ?thesis by (rule finite_subset) simp
qed

lemma increases_snoc: "increases (rs @ [r]) = increases rs \<union> (\<lambda>x. r - x) ` set (rs @ [r])"
proof (intro equalityI subsetI)
  fix d assume "d \<in> increases (rs @ [r])"
  then obtain i j where ij: "i \<le> j" "j < Suc (length rs)" and d: "d = (rs @ [r]) ! j - (rs @ [r]) ! i"
    by (auto simp: increases_def)
  show "d \<in> increases rs \<union> (\<lambda>x. r - x) ` set (rs @ [r])"
  proof (cases "j < length rs")
    case True
    with ij d have "d = rs ! j - rs ! i" by (simp add: nth_append)
    with True ij show ?thesis by (auto simp: increases_def)
  next
    case False
    with ij have j: "j = length rs" by simp
    have "(rs @ [r]) ! i \<in> set (rs @ [r])" using ij j by (intro nth_mem) simp
    with d j show ?thesis by (auto simp: nth_append)
  qed
next
  fix d assume "d \<in> increases rs \<union> (\<lambda>x. r - x) ` set (rs @ [r])"
  then consider "d \<in> increases rs" | "d \<in> (\<lambda>x. r - x) ` set (rs @ [r])" by blast
  then show "d \<in> increases (rs @ [r])"
  proof cases
    case 1
    then obtain i j where "i \<le> j" "j < length rs" "d = rs ! j - rs ! i"
      by (auto simp: increases_def)
    then have "i \<le> j \<and> j < length (rs @ [r]) \<and> d = (rs @ [r]) ! j - (rs @ [r]) ! i"
      by (simp add: nth_append)
    then show ?thesis unfolding increases_def by blast
  next
    case 2
    then obtain x where x: "x \<in> set (rs @ [r])" "d = r - x" by blast
    then obtain i where i: "i < length (rs @ [r])" "(rs @ [r]) ! i = x"
      by (meson in_set_conv_nth)
    then have "i \<le> length rs \<and> length rs < length (rs @ [r]) \<and> d = (rs @ [r]) ! (length rs) - (rs @ [r]) ! i"
      using x by simp
    then show ?thesis unfolding increases_def by blast
  qed
qed

lemma Max_diff_image:
  fixes A :: "real set"
  assumes "finite A" "A \<noteq> {}"
  shows "Max ((\<lambda>x. r - x) ` A) = r - Min A"
proof (rule Max_eqI)
  show "finite ((\<lambda>x. r - x) ` A)" using assms by simp
  have "Min A \<in> A" using assms by simp
  then show "r - Min A \<in> (\<lambda>x. r - x) ` A" by (rule imageI)
  fix y assume "y \<in> (\<lambda>x. r - x) ` A"
  then obtain x where "x \<in> A" "y = r - x" by blast
  then show "y \<le> r - Min A" using assms by simp
qed

lemma Max_insert0_increases_snoc:
  "Max (insert 0 (increases (rs @ [r]))) = max (Max (insert 0 (increases rs))) (r - Min (set (rs @ [r])))"
proof -
  have "insert 0 (increases (rs @ [r])) = insert 0 (increases rs) \<union> (\<lambda>x. r - x) ` set (rs @ [r])"
    by (simp add: increases_snoc)
  then have "Max (insert 0 (increases (rs @ [r]))) =
      max (Max (insert 0 (increases rs))) (Max ((\<lambda>x. r - x) ` set (rs @ [r])))"
    by (simp only:) (rule Max_Un; simp add: finite_increases)
  moreover have "Max ((\<lambda>x. r - x) ` set (rs @ [r])) = r - Min (set (rs @ [r]))"
    by (rule Max_diff_image) simp_all
  ultimately show ?thesis by (simp only:)
qed


lemma decreases_snoc: "decreases (rs @ [r]) = decreases rs \<union> (\<lambda>x. x - r) ` set (rs @ [r])"
proof (intro equalityI subsetI)
  fix d assume "d \<in> decreases (rs @ [r])"
  then obtain i j where ij: "i \<le> j" "j < Suc (length rs)" and d: "d = (rs @ [r]) ! i - (rs @ [r]) ! j"
    by (auto simp: decreases_def)
  show "d \<in> decreases rs \<union> (\<lambda>x. x - r) ` set (rs @ [r])"
  proof (cases "j < length rs")
    case True
    with ij d have "d = rs ! i - rs ! j" by (simp add: nth_append)
    with True ij show ?thesis by (auto simp: decreases_def)
  next
    case False
    with ij have j: "j = length rs" by simp
    have "(rs @ [r]) ! i \<in> set (rs @ [r])" using ij j by (intro nth_mem) simp
    with d j show ?thesis by (auto simp: nth_append)
  qed
next
  fix d assume "d \<in> decreases rs \<union> (\<lambda>x. x - r) ` set (rs @ [r])"
  then consider "d \<in> decreases rs" | "d \<in> (\<lambda>x. x - r) ` set (rs @ [r])" by blast
  then show "d \<in> decreases (rs @ [r])"
  proof cases
    case 1
    then obtain i j where "i \<le> j" "j < length rs" "d = rs ! i - rs ! j"
      by (auto simp: decreases_def)
    then have "i \<le> j \<and> j < length (rs @ [r]) \<and> d = (rs @ [r]) ! i - (rs @ [r]) ! j"
      by (simp add: nth_append)
    then show ?thesis unfolding decreases_def by blast
  next
    case 2
    then obtain x where x: "x \<in> set (rs @ [r])" "d = x - r" by blast
    then obtain i where i: "i < length (rs @ [r])" "(rs @ [r]) ! i = x"
      by (meson in_set_conv_nth)
    then have "i \<le> length rs \<and> length rs < length (rs @ [r]) \<and> d = (rs @ [r]) ! i - (rs @ [r]) ! (length rs)"
      using x by simp
    then show ?thesis unfolding decreases_def by blast
  qed
qed

lemma Max_image_diff:
  fixes A :: "real set"
  assumes "finite A" "A \<noteq> {}"
  shows "Max ((\<lambda>x. x - r) ` A) = Max A - r"
proof (rule Max_eqI)
  show "finite ((\<lambda>x. x - r) ` A)" using assms by simp
  have "Max A \<in> A" using assms by simp
  then show "Max A - r \<in> (\<lambda>x. x - r) ` A" by (rule imageI)
  fix y assume "y \<in> (\<lambda>x. x - r) ` A"
  then obtain x where "x \<in> A" "y = x - r" by blast
  then show "y \<le> Max A - r" using assms by simp
qed

lemma Max_insert0_decreases_snoc:
  "Max (insert 0 (decreases (rs @ [r]))) = max (Max (insert 0 (decreases rs))) (Max (set (rs @ [r])) - r)"
proof -
  have "insert 0 (decreases (rs @ [r])) = insert 0 (decreases rs) \<union> (\<lambda>x. x - r) ` set (rs @ [r])"
    by (simp add: decreases_snoc)
  then have "Max (insert 0 (decreases (rs @ [r]))) =
      max (Max (insert 0 (decreases rs))) (Max ((\<lambda>x. x - r) ` set (rs @ [r])))"
    by (simp only:) (rule Max_Un; simp add: finite_decreases)
  moreover have "Max ((\<lambda>x. x - r) ` set (rs @ [r])) = Max (set (rs @ [r])) - r"
    by (rule Max_image_diff) simp_all
  ultimately show ?thesis by (simp only:)
qed

lemma py_min_Fin: "py_min (Fin a) (Fin b) = Fin (min a b)"
  by (simp add: py_min_def min_def)

lemma py_max_Fin: "py_max (Fin a) (Fin b) = Fin (max a b)"
  by (simp add: py_max_def max_def)

lemma increases_Nil: "increases [] = {}"
  by (simp add: increases_def)

lemma decreases_Nil: "decreases [] = {}"
  by (simp add: decreases_def)

lemma foldl_find_step:
  "rs \<noteq> [] \<Longrightarrow>
   foldl find_step (PosInf, Fin 0, NegInf, Fin 0) rs =
     (Fin (Min (set rs)), Fin (Max (insert 0 (increases rs))),
      Fin (Max (set rs)), Fin (Max (insert 0 (decreases rs))))"
proof (induction rs rule: rev_induct)
  case Nil
  then show ?case by simp
next
  case (snoc r rs)
  show ?case
  proof (cases "rs = []")
    case True
    have "increases [r] = {0}" "decreases [r] = {0}"
      using increases_snoc[of "[]" r] decreases_snoc[of "[]" r]
      by (simp_all add: increases_Nil decreases_Nil)
    with True show ?thesis
      by (simp add: py_min_def py_max_def Let_def)
  next
    case False
    have m: "Min (set (rs @ [r])) = min (Min (set rs)) r" "Max (set (rs @ [r])) = max (Max (set rs)) r"
      using False by (simp_all add: min.commute max.commute)
    show ?thesis
      unfolding foldl_append snoc.IH[OF False] Max_insert0_increases_snoc Max_insert0_decreases_snoc m
      by (simp add: py_min_Fin py_max_Fin Let_def)
  qed
qed

lemma find_largest_eq:
  "find_largest_increase_and_decrease rs =
     (Fin (Max (insert 0 (increases rs))), Fin (Max (insert 0 (decreases rs))))"
proof (cases "rs = []")
  case True
  then show ?thesis
    by (simp add: find_largest_increase_and_decrease_def increases_Nil decreases_Nil)
next
  case False
  then show ?thesis
    by (simp add: find_largest_increase_and_decrease_def foldl_find_step)
qed

lemma find_largest_negative_example:
  "find_largest_increase_and_decrease [-1, -2, 1, -3, 2] = (Fin 5, Fin 4)"
  by (simp add: find_largest_increase_and_decrease_def py_min_def py_max_def Let_def)

lemma find_largest_constant_example:
  "find_largest_increase_and_decrease [1, 1, 1, 1] = (Fin 0, Fin 0)"
  by (simp add: find_largest_increase_and_decrease_def py_min_def py_max_def Let_def)

lemma find_largest_single:
  "find_largest_increase_and_decrease [r] = (Fin 0, Fin 0)"
  by (simp add: find_largest_increase_and_decrease_def py_min_def py_max_def Let_def)

subsection \<open>The scan with rounded subtraction\<close>

text \<open>
  The floats are ordered by \<open>flt\<close>; away from \<open>NaN\<close> the order is total, so a set of
  floats without \<open>NaN\<close> has at most one largest element.
\<close>


lemma flt_trans: "flt a b \<Longrightarrow> flt b c \<Longrightarrow> flt a c"
  by (cases a; cases b; cases c) simp_all

lemma flt_total: "a \<noteq> NaN \<Longrightarrow> b \<noteq> NaN \<Longrightarrow> x \<noteq> NaN \<Longrightarrow> \<not> flt a b \<Longrightarrow> flt a x \<Longrightarrow> flt b x"
  by (cases a; cases b; cases x) simp_all

lemma flt_irrefl: "\<not> flt a a"
  by (cases a) simp_all

lemma largest_of_unique:
  "NaN \<notin> S \<Longrightarrow> largest_of S m \<Longrightarrow> largest_of S m' \<Longrightarrow> m = m'"
proof -
  assume n: "NaN \<notin> S" and a: "largest_of S m" and b: "largest_of S m'"
  then have "m \<in> S" "m' \<in> S" "\<not> flt m m'" "\<not> flt m' m" by (auto simp: largest_of_def)
  with n show "m = m'" by (cases m; cases m') auto
qed

lemma largest_of_union:
  assumes "largest_of A m" "b \<in> B" "\<forall>x \<in> B. \<not> flt b x" "NaN \<notin> A" "NaN \<notin> B"
  shows "largest_of (A \<union> B) (py_max m b)"
proof (cases "flt m b")
  case True
  have "\<forall>x \<in> A. \<not> flt b x"
  proof
    fix x assume "x \<in> A"
    with assms(1) have "\<not> flt m x" by (simp add: largest_of_def)
    with flt_trans[OF True] show "\<not> flt b x" by blast
  qed
  with True assms(2,3) show ?thesis by (auto simp: largest_of_def py_max_def)
next
  case False
  from assms have nn: "m \<noteq> NaN" "b \<noteq> NaN" by (auto simp: largest_of_def)
  have "\<forall>x \<in> B. \<not> flt m x"
  proof
    fix x assume x: "x \<in> B"
    with assms(5) have "x \<noteq> NaN" by auto
    from flt_total[OF nn this False] assms(3) x show "\<not> flt m x" by blast
  qed
  with False assms(1) show ?thesis by (auto simp: largest_of_def py_max_def)
qed

lemma rounded_increases_snoc:
  "rounded_increases fl (rs @ [r]) = rounded_increases fl rs \<union> (\<lambda>x. fl (r - x)) ` set (rs @ [r])"
proof (intro equalityI subsetI)
  fix d assume "d \<in> rounded_increases fl (rs @ [r])"
  then obtain i j where ij: "i \<le> j" "j < Suc (length rs)"
    and d: "d = fl ((rs @ [r]) ! j - (rs @ [r]) ! i)"
    by (auto simp: rounded_increases_def)
  show "d \<in> rounded_increases fl rs \<union> (\<lambda>x. fl (r - x)) ` set (rs @ [r])"
  proof (cases "j < length rs")
    case True
    with ij d have "d = fl (rs ! j - rs ! i)" by (simp add: nth_append)
    with True ij show ?thesis by (auto simp: rounded_increases_def)
  next
    case False
    with ij have j: "j = length rs" by simp
    have "(rs @ [r]) ! i \<in> set (rs @ [r])" using ij j by (intro nth_mem) simp
    with d j show ?thesis by (auto simp: nth_append)
  qed
next
  fix d assume "d \<in> rounded_increases fl rs \<union> (\<lambda>x. fl (r - x)) ` set (rs @ [r])"
  then consider "d \<in> rounded_increases fl rs" | "d \<in> (\<lambda>x. fl (r - x)) ` set (rs @ [r])" by blast
  then show "d \<in> rounded_increases fl (rs @ [r])"
  proof cases
    case 1
    then obtain i j where "i \<le> j" "j < length rs" "d = fl (rs ! j - rs ! i)"
      by (auto simp: rounded_increases_def)
    then have "i \<le> j \<and> j < length (rs @ [r]) \<and> d = fl ((rs @ [r]) ! j - (rs @ [r]) ! i)"
      by (simp add: nth_append)
    then show ?thesis unfolding rounded_increases_def by blast
  next
    case 2
    then obtain x where x: "x \<in> set (rs @ [r])" "d = fl (r - x)" by blast
    then obtain i where i: "i < length (rs @ [r])" "(rs @ [r]) ! i = x"
      by (meson in_set_conv_nth)
    then have "i \<le> length rs \<and> length rs < length (rs @ [r]) \<and>
        d = fl ((rs @ [r]) ! (length rs) - (rs @ [r]) ! i)"
      using x by simp
    then show ?thesis unfolding rounded_increases_def by blast
  qed
qed

lemma rounded_decreases_snoc:
  "rounded_decreases fl (rs @ [r]) = rounded_decreases fl rs \<union> (\<lambda>x. fl (x - r)) ` set (rs @ [r])"
proof (intro equalityI subsetI)
  fix d assume "d \<in> rounded_decreases fl (rs @ [r])"
  then obtain i j where ij: "i \<le> j" "j < Suc (length rs)"
    and d: "d = fl ((rs @ [r]) ! i - (rs @ [r]) ! j)"
    by (auto simp: rounded_decreases_def)
  show "d \<in> rounded_decreases fl rs \<union> (\<lambda>x. fl (x - r)) ` set (rs @ [r])"
  proof (cases "j < length rs")
    case True
    with ij d have "d = fl (rs ! i - rs ! j)" by (simp add: nth_append)
    with True ij show ?thesis by (auto simp: rounded_decreases_def)
  next
    case False
    with ij have j: "j = length rs" by simp
    have "(rs @ [r]) ! i \<in> set (rs @ [r])" using ij j by (intro nth_mem) simp
    with d j show ?thesis by (auto simp: nth_append)
  qed
next
  fix d assume "d \<in> rounded_decreases fl rs \<union> (\<lambda>x. fl (x - r)) ` set (rs @ [r])"
  then consider "d \<in> rounded_decreases fl rs" | "d \<in> (\<lambda>x. fl (x - r)) ` set (rs @ [r])" by blast
  then show "d \<in> rounded_decreases fl (rs @ [r])"
  proof cases
    case 1
    then obtain i j where "i \<le> j" "j < length rs" "d = fl (rs ! i - rs ! j)"
      by (auto simp: rounded_decreases_def)
    then have "i \<le> j \<and> j < length (rs @ [r]) \<and> d = fl ((rs @ [r]) ! i - (rs @ [r]) ! j)"
      by (simp add: nth_append)
    then show ?thesis unfolding rounded_decreases_def by blast
  next
    case 2
    then obtain x where x: "x \<in> set (rs @ [r])" "d = fl (x - r)" by blast
    then obtain i where i: "i < length (rs @ [r])" "(rs @ [r]) ! i = x"
      by (meson in_set_conv_nth)
    then have "i \<le> length rs \<and> length rs < length (rs @ [r]) \<and>
        d = fl ((rs @ [r]) ! i - (rs @ [r]) ! (length rs))"
      using x by simp
    then show ?thesis unfolding rounded_decreases_def by blast
  qed
qed

lemma rounded_no_NaN:
  "float_rounding fl \<Longrightarrow> NaN \<notin> insert (Fin 0) (rounded_increases fl rs)"
  "float_rounding fl \<Longrightarrow> NaN \<notin> insert (Fin 0) (rounded_decreases fl rs)"
  "float_rounding fl \<Longrightarrow> NaN \<notin> (\<lambda>x. fl (f x)) ` A"
proof -
  assume "float_rounding fl"
  then have n: "\<And>x. NaN \<noteq> fl x" by (metis float_rounding_def)
  show "NaN \<notin> insert (Fin 0) (rounded_increases fl rs)"
    "NaN \<notin> insert (Fin 0) (rounded_decreases fl rs)"
    "NaN \<notin> (\<lambda>x. fl (f x)) ` A"
    using n by (auto simp: rounded_increases_def rounded_decreases_def)
qed

lemma foldl_find_step_rounded:
  assumes fl: "float_rounding fl"
  shows "rs \<noteq> [] \<Longrightarrow>
   \<exists>mi md. foldl (find_step_rounded fl) (PosInf, Fin 0, NegInf, Fin 0) rs =
       (Fin (Min (set rs)), mi, Fin (Max (set rs)), md) \<and>
     largest_of (insert (Fin 0) (rounded_increases fl rs)) mi \<and>
     largest_of (insert (Fin 0) (rounded_decreases fl rs)) md"
proof (induction rs rule: rev_induct)
  case Nil
  then show ?case by simp
next
  case (snoc r rs)
  let ?xs = "rs @ [r]"
  have mono: "\<And>x y. x \<le> y \<Longrightarrow> \<not> flt (fl y) (fl x)" using fl by (simp add: float_rounding_def)
  have inc_B: "fl (r - Min (set ?xs)) \<in> (\<lambda>x. fl (r - x)) ` set ?xs"
    "\<forall>y \<in> (\<lambda>x. fl (r - x)) ` set ?xs. \<not> flt (fl (r - Min (set ?xs))) y"
  proof -
    have "Min (set ?xs) \<in> set ?xs" by (rule Min_in) simp_all
    then show "fl (r - Min (set ?xs)) \<in> (\<lambda>x. fl (r - x)) ` set ?xs" by (rule imageI)
    show "\<forall>y \<in> (\<lambda>x. fl (r - x)) ` set ?xs. \<not> flt (fl (r - Min (set ?xs))) y"
    proof
      fix y assume "y \<in> (\<lambda>x. fl (r - x)) ` set ?xs"
      then obtain x where x: "x \<in> set ?xs" "y = fl (r - x)" by blast
      then have "Min (set ?xs) \<le> x" by simp
      then have "r - x \<le> r - Min (set ?xs)" by (rule diff_left_mono)
      from mono[OF this] x show "\<not> flt (fl (r - Min (set ?xs))) y" by simp
    qed
  qed
  have dec_B: "fl (Max (set ?xs) - r) \<in> (\<lambda>x. fl (x - r)) ` set ?xs"
    "\<forall>y \<in> (\<lambda>x. fl (x - r)) ` set ?xs. \<not> flt (fl (Max (set ?xs) - r)) y"
  proof -
    have "Max (set ?xs) \<in> set ?xs" by (rule Max_in) simp_all
    then show "fl (Max (set ?xs) - r) \<in> (\<lambda>x. fl (x - r)) ` set ?xs" by (rule imageI)
    show "\<forall>y \<in> (\<lambda>x. fl (x - r)) ` set ?xs. \<not> flt (fl (Max (set ?xs) - r)) y"
    proof
      fix y assume "y \<in> (\<lambda>x. fl (x - r)) ` set ?xs"
      then obtain x where x: "x \<in> set ?xs" "y = fl (x - r)" by blast
      then have "x \<le> Max (set ?xs)" by simp
      then have "x - r \<le> Max (set ?xs) - r" by (rule diff_right_mono)
      from mono[OF this] x show "\<not> flt (fl (Max (set ?xs) - r)) y" by simp
    qed
  qed
  have step: "\<And>m M mi md. (m = PosInf \<and> rs = [] \<or> m = Fin (Min (set rs)) \<and> rs \<noteq> []) \<Longrightarrow>
      (M = NegInf \<and> rs = [] \<or> M = Fin (Max (set rs)) \<and> rs \<noteq> []) \<Longrightarrow>
      find_step_rounded fl (m, mi, M, md) r =
        (Fin (Min (set ?xs)), py_max mi (fl (r - Min (set ?xs))),
         Fin (Max (set ?xs)), py_max md (fl (Max (set ?xs) - r)))"
  proof -
    fix m M mi md
    assume m: "m = PosInf \<and> rs = [] \<or> m = Fin (Min (set rs)) \<and> rs \<noteq> []"
      and M: "M = NegInf \<and> rs = [] \<or> M = Fin (Max (set rs)) \<and> rs \<noteq> []"
    have 1: "py_min m (Fin r) = Fin (Min (set ?xs))"
    proof (cases "rs = []")
      case True
      with m show ?thesis by (simp add: py_min_def)
    next
      case False
      with m have "m = Fin (Min (set rs))" by blast
      then have "py_min m (Fin r) = Fin (min r (Min (set rs)))"
        by (simp only: py_min_Fin min.commute)
      with False show ?thesis by simp
    qed
    have 2: "py_max M (Fin r) = Fin (Max (set ?xs))"
    proof (cases "rs = []")
      case True
      with M show ?thesis by (simp add: py_max_def)
    next
      case False
      with M have "M = Fin (Max (set rs))" by blast
      then have "py_max M (Fin r) = Fin (max r (Max (set rs)))"
        by (simp only: py_max_Fin max.commute)
      with False show ?thesis by simp
    qed
    show "find_step_rounded fl (m, mi, M, md) r =
        (Fin (Min (set ?xs)), py_max mi (fl (r - Min (set ?xs))),
         Fin (Max (set ?xs)), py_max md (fl (Max (set ?xs) - r)))"
      by (simp add: Let_def 1 2)
  qed
  have res: "\<exists>mi0 md0. foldl (find_step_rounded fl) (PosInf, Fin 0, NegInf, Fin 0) ?xs =
      (Fin (Min (set ?xs)), py_max mi0 (fl (r - Min (set ?xs))),
       Fin (Max (set ?xs)), py_max md0 (fl (Max (set ?xs) - r))) \<and>
      largest_of (insert (Fin 0) (rounded_increases fl rs)) mi0 \<and>
      largest_of (insert (Fin 0) (rounded_decreases fl rs)) md0"
  proof (cases "rs = []")
    case True
    have e: "rounded_increases fl [] = {}" "rounded_decreases fl [] = {}"
      by (simp_all add: rounded_increases_def rounded_decreases_def)
    have "largest_of {Fin 0} (Fin 0)" by (simp add: largest_of_def)
    with True e step[of PosInf NegInf "Fin 0" "Fin 0"] show ?thesis by auto
  next
    case False
    from snoc.IH[OF False] obtain mi md where
      st: "foldl (find_step_rounded fl) (PosInf, Fin 0, NegInf, Fin 0) rs =
         (Fin (Min (set rs)), mi, Fin (Max (set rs)), md)"
      and l: "largest_of (insert (Fin 0) (rounded_increases fl rs)) mi"
        "largest_of (insert (Fin 0) (rounded_decreases fl rs)) md" by blast
    from st l False step[of "Fin (Min (set rs))" "Fin (Max (set rs))" mi md] show ?thesis
      by auto
  qed
  then obtain mi0 md0 where
    st: "foldl (find_step_rounded fl) (PosInf, Fin 0, NegInf, Fin 0) ?xs =
      (Fin (Min (set ?xs)), py_max mi0 (fl (r - Min (set ?xs))),
       Fin (Max (set ?xs)), py_max md0 (fl (Max (set ?xs) - r)))"
    and l: "largest_of (insert (Fin 0) (rounded_increases fl rs)) mi0"
      "largest_of (insert (Fin 0) (rounded_decreases fl rs)) md0" by blast
  have si: "insert (Fin 0) (rounded_increases fl ?xs) =
      insert (Fin 0) (rounded_increases fl rs) \<union> (\<lambda>x. fl (r - x)) ` set ?xs"
    by (simp only: rounded_increases_snoc Un_insert_left)
  have sd: "insert (Fin 0) (rounded_decreases fl ?xs) =
      insert (Fin 0) (rounded_decreases fl rs) \<union> (\<lambda>x. fl (x - r)) ` set ?xs"
    by (simp only: rounded_decreases_snoc Un_insert_left)
  have li: "largest_of (insert (Fin 0) (rounded_increases fl ?xs)) (py_max mi0 (fl (r - Min (set ?xs))))"
    unfolding si
    by (rule largest_of_union[OF l(1) inc_B rounded_no_NaN(1)[OF fl] rounded_no_NaN(3)[OF fl]])
  have ld: "largest_of (insert (Fin 0) (rounded_decreases fl ?xs)) (py_max md0 (fl (Max (set ?xs) - r)))"
    unfolding sd
    by (rule largest_of_union[OF l(2) dec_B rounded_no_NaN(2)[OF fl] rounded_no_NaN(3)[OF fl]])
  from st li ld show ?case by blast
qed

lemma find_largest_rounded_largest:
  assumes fl: "float_rounding fl"
  shows "largest_of (insert (Fin 0) (rounded_increases fl rs))
           (fst (find_largest_increase_and_decrease_rounded fl rs))"
    and "largest_of (insert (Fin 0) (rounded_decreases fl rs))
           (snd (find_largest_increase_and_decrease_rounded fl rs))"
proof -
  have "largest_of (insert (Fin 0) (rounded_increases fl rs))
           (fst (find_largest_increase_and_decrease_rounded fl rs)) \<and>
        largest_of (insert (Fin 0) (rounded_decreases fl rs))
           (snd (find_largest_increase_and_decrease_rounded fl rs))"
  proof (cases "rs = []")
    case True
    then show ?thesis
      by (simp add: find_largest_increase_and_decrease_rounded_def rounded_increases_def
          rounded_decreases_def largest_of_def)
  next
    case False
    from foldl_find_step_rounded[OF fl False] show ?thesis
      by (auto simp: find_largest_increase_and_decrease_rounded_def)
  qed
  then show "largest_of (insert (Fin 0) (rounded_increases fl rs))
           (fst (find_largest_increase_and_decrease_rounded fl rs))"
    and "largest_of (insert (Fin 0) (rounded_decreases fl rs))
           (snd (find_largest_increase_and_decrease_rounded fl rs))" by simp_all
qed


lemma fl_int:
  "float_rounding fl \<Longrightarrow> \<bar>n\<bar> \<le> 2 ^ 53 \<Longrightarrow> fl (of_int n) = Fin (of_int n)"
  by (simp add: float_rounding_def)

lemma fl_small:
  assumes "float_rounding fl"
  shows "fl 0 = Fin 0" "fl 1 = Fin 1" "fl 2 = Fin 2" "fl 3 = Fin 3" "fl 4 = Fin 4" "fl 5 = Fin 5"
    "fl (- 1) = Fin (- 1)" "fl (- 2) = Fin (- 2)" "fl (- 3) = Fin (- 3)" "fl (- 4) = Fin (- 4)"
    "fl (- 5) = Fin (- 5)"
  using fl_int[OF assms, of 0] fl_int[OF assms, of 1] fl_int[OF assms, of 2]
    fl_int[OF assms, of 3] fl_int[OF assms, of 4] fl_int[OF assms, of 5]
    fl_int[OF assms, of "- 1"] fl_int[OF assms, of "- 2"] fl_int[OF assms, of "- 3"]
    fl_int[OF assms, of "- 4"] fl_int[OF assms, of "- 5"]
  by simp_all

lemma find_largest_rounded_negative_example:
  "float_rounding fl \<Longrightarrow>
   find_largest_increase_and_decrease_rounded fl [- 1, - 2, 1, - 3, 2] = (Fin 5, Fin 4)"
  by (simp add: find_largest_increase_and_decrease_rounded_def Let_def py_min_def py_max_def
      fl_small)

lemma find_largest_rounded_constant_example:
  "float_rounding fl \<Longrightarrow>
   find_largest_increase_and_decrease_rounded fl [1, 1, 1, 1] = (Fin 0, Fin 0)"
  by (simp add: find_largest_increase_and_decrease_rounded_def Let_def py_min_def py_max_def
      fl_small)

lemma find_largest_rounded_single:
  "float_rounding fl \<Longrightarrow> find_largest_increase_and_decrease_rounded fl [r] = (Fin 0, Fin 0)"
  by (simp add: find_largest_increase_and_decrease_rounded_def Let_def py_min_def py_max_def
      fl_small)

lemma float_sub_Fin: "float_sub Fin a b = fsub a b"
  by (cases a; cases b) simp_all

lemma find_step_rounded_Fin: "find_step_rounded Fin st r = find_step st r"
  by (cases st) (simp add: float_sub_Fin Let_def)

lemma find_largest_rounded_Fin:
  "find_largest_increase_and_decrease_rounded Fin rs = find_largest_increase_and_decrease rs"
proof -
  have "find_step_rounded Fin = find_step" by (intro ext) (rule find_step_rounded_Fin)
  then show ?thesis
    by (simp add: find_largest_increase_and_decrease_rounded_def
        find_largest_increase_and_decrease_def)
qed

lemma float_rounding_Fin: "float_rounding Fin"
  by (simp add: float_rounding_def)

lemma float_rounding_quarter: "float_rounding quarter_rounding"
proof -
  have mono: "\<not> flt (quarter_rounding y) (quarter_rounding x)" if "x \<le> y" for x y :: real
  proof -
    from that have "x * 4 + 1 / 2 \<le> y * 4 + 1 / 2" by simp
    then have "\<lfloor>x * 4 + 1 / 2\<rfloor> \<le> \<lfloor>y * 4 + 1 / 2\<rfloor>" by (rule floor_mono)
    then have "(of_int \<lfloor>x * 4 + 1 / 2\<rfloor> :: real) \<le> of_int \<lfloor>y * 4 + 1 / 2\<rfloor>" by simp
    then show ?thesis by (simp add: quarter_rounding_def)
  qed
  have exact: "quarter_rounding (of_int n) = Fin (of_int n)" for n :: int
  proof -
    have "\<lfloor>(of_int n :: real) * 4 + 1 / 2\<rfloor> = n * 4"
      by (rule floor_unique) simp_all
    then show ?thesis by (simp add: quarter_rounding_def)
  qed
  show ?thesis
    unfolding float_rounding_def using mono exact by (simp add: quarter_rounding_def)
qed

lemma quarter_rounding_rounds: "quarter_rounding (3 / 10) = Fin (1 / 4)"
  by (simp add: quarter_rounding_def)

lemma quarter_rounding_example:
  "find_largest_increase_and_decrease_rounded quarter_rounding [1 / 10, 4 / 10] =
     (Fin (1 / 4), Fin 0)"
  by (simp add: find_largest_increase_and_decrease_rounded_def Let_def py_min_def py_max_def
      quarter_rounding_def)

lemma rounded_increases_image: "rounded_increases fl rs = fl ` increases rs"
  by (auto simp: rounded_increases_def increases_def)

lemma rounded_decreases_image: "rounded_decreases fl rs = fl ` decreases rs"
  by (auto simp: rounded_decreases_def decreases_def)

lemma largest_of_insert0_image:
  assumes fl: "float_rounding fl" and D: "finite D" "D \<noteq> {}"
  shows "largest_of (insert (Fin 0) (fl ` D)) (py_max (Fin 0) (fl (Max D)))"
proof -
  have mono: "\<And>x y. x \<le> y \<Longrightarrow> \<not> flt (fl y) (fl x)" using fl by (simp add: float_rounding_def)
  have a: "largest_of {Fin 0} (Fin 0)" by (simp add: largest_of_def)
  have b: "fl (Max D) \<in> fl ` D" using D by (intro imageI Max_in)
  have c: "\<forall>y \<in> fl ` D. \<not> flt (fl (Max D)) y"
  proof
    fix y assume "y \<in> fl ` D"
    then obtain x where x: "x \<in> D" "y = fl x" by blast
    with D have "x \<le> Max D" by simp
    from mono[OF this] x show "\<not> flt (fl (Max D)) y" by simp
  qed
  have n: "NaN \<notin> {Fin 0}" "NaN \<notin> fl ` D"
    using fl by (auto simp: float_rounding_def) metis
  from largest_of_union[OF a b c n] show ?thesis by simp
qed

lemma find_largest_rounded_of_exact:
  assumes fl: "float_rounding fl" and rs: "rs \<noteq> []"
  shows "find_largest_increase_and_decrease_rounded fl rs =
     (py_max (Fin 0) (fl (Max (increases rs))), py_max (Fin 0) (fl (Max (decreases rs))))"
proof -
  have ne: "increases rs \<noteq> {}" "decreases rs \<noteq> {}"
  proof -
    from rs have "0 \<le> (0::nat) \<and> 0 < length rs" by simp
    then have "rs ! 0 - rs ! 0 \<in> increases rs" "rs ! 0 - rs ! 0 \<in> decreases rs"
      unfolding increases_def decreases_def by blast+
    then show "increases rs \<noteq> {}" "decreases rs \<noteq> {}" by blast+
  qed
  have i: "fst (find_largest_increase_and_decrease_rounded fl rs) =
      py_max (Fin 0) (fl (Max (increases rs)))"
    by (rule largest_of_unique[OF rounded_no_NaN(1)[OF fl, of rs]
          find_largest_rounded_largest(1)[OF fl]])
       (simp only: rounded_increases_image
          largest_of_insert0_image[OF fl finite_increases ne(1)])
  have d: "snd (find_largest_increase_and_decrease_rounded fl rs) =
      py_max (Fin 0) (fl (Max (decreases rs)))"
    by (rule largest_of_unique[OF rounded_no_NaN(2)[OF fl, of rs]
          find_largest_rounded_largest(2)[OF fl]])
       (simp only: rounded_decreases_image
          largest_of_insert0_image[OF fl finite_decreases ne(2)])
  from i d show ?thesis by (simp add: prod_eq_iff)
qed

lemma find_largest_rounded_nonneg:
  assumes fl: "float_rounding fl"
  shows "\<not> flt (fst (find_largest_increase_and_decrease_rounded fl rs)) (Fin 0)"
    and "\<not> flt (snd (find_largest_increase_and_decrease_rounded fl rs)) (Fin 0)"
    and "fst (find_largest_increase_and_decrease_rounded fl rs) \<noteq> NaN"
    and "snd (find_largest_increase_and_decrease_rounded fl rs) \<noteq> NaN"
  using find_largest_rounded_largest[OF fl, of rs] rounded_no_NaN(1,2)[OF fl, of rs]
  by (auto simp: largest_of_def)

text \<open>
  Claim C4. For every rate series, \<^verbatim>\<open>_find_largest_increase_and_decrease\<close> returns as
  \<open>max_increase\<close> the largest of 0 and the differences \<open>rate\<^sub>j - rate\<^sub>i\<close> over all index
  pairs \<open>i \<le> j\<close>, and as \<open>max_decrease\<close> the largest of 0 and the differences
  \<open>rate\<^sub>i - rate\<^sub>j\<close> over the same pairs. The differences are the float differences the
  code computes, \<open>fl (rate\<^sub>j - rate\<^sub>i)\<close>, for any rounding \<open>fl\<close> that never yields \<open>NaN\<close>, is
  monotone and keeps the integers up to \<open>2\<^sup>5\<^sup>3\<close>; each result is the one largest element
  of its set. The series \<open>[-1, -2, 1, -3, 2]\<close> gives \<open>(5, 4)\<close>, the constant series
  \<open>[1, 1, 1, 1]\<close> gives \<open>(0, 0)\<close>, and every series of one rate gives \<open>(0, 0)\<close>.
\<close>

theorem C4_find_largest_increase_and_decrease:
  assumes "float_rounding fl"
  shows "(\<forall>m. largest_of
             (insert (Fin 0) {fl (rs ! j - rs ! i) | i j. i \<le> j \<and> j < length rs}) m
           = (m = fst (find_largest_increase_and_decrease_rounded fl rs)))
   \<and> (\<forall>m. largest_of
             (insert (Fin 0) {fl (rs ! i - rs ! j) | i j. i \<le> j \<and> j < length rs}) m
           = (m = snd (find_largest_increase_and_decrease_rounded fl rs)))
   \<and> find_largest_increase_and_decrease_rounded fl [- 1, - 2, 1, - 3, 2] = (Fin 5, Fin 4)
   \<and> find_largest_increase_and_decrease_rounded fl [1, 1, 1, 1] = (Fin 0, Fin 0)
   \<and> find_largest_increase_and_decrease_rounded fl [r] = (Fin 0, Fin 0)"
proof -
  have i: "largest_of (insert (Fin 0) (rounded_increases fl rs)) m
      = (m = fst (find_largest_increase_and_decrease_rounded fl rs))" for m
    using largest_of_unique[OF rounded_no_NaN(1)[OF assms, of rs] _
        find_largest_rounded_largest(1)[OF assms, of rs], of m]
      find_largest_rounded_largest(1)[OF assms, of rs]
    by blast
  have d: "largest_of (insert (Fin 0) (rounded_decreases fl rs)) m
      = (m = snd (find_largest_increase_and_decrease_rounded fl rs))" for m
    using largest_of_unique[OF rounded_no_NaN(2)[OF assms, of rs] _
        find_largest_rounded_largest(2)[OF assms, of rs], of m]
      find_largest_rounded_largest(2)[OF assms, of rs]
    by blast
  from i d show ?thesis
    unfolding rounded_increases_def rounded_decreases_def
    using find_largest_rounded_negative_example[OF assms]
      find_largest_rounded_constant_example[OF assms]
      find_largest_rounded_single[OF assms]
    by blast
qed

text \<open>
  The theorem at a rounding that does round, to multiples of a quarter: the series
  \<open>[0.1, 0.4]\<close> has the exact difference 0.3, the code's difference is 0.25, and 0.25 is
  the largest of 0 and the rounded differences.
\<close>

theorem C4_witness_quarter_rounding:
  "float_rounding quarter_rounding
   \<and> quarter_rounding (3 / 10) = Fin (1 / 4)
   \<and> find_largest_increase_and_decrease_rounded quarter_rounding [1 / 10, 4 / 10] =
       (Fin (1 / 4), Fin 0)
   \<and> largest_of
       (insert (Fin 0)
          {quarter_rounding ([1 / 10, 4 / 10] ! j - [1 / 10, 4 / 10] ! i) | i j.
             i \<le> j \<and> j < length [1 / 10, 4 / 10 :: real]})
       (Fin (1 / 4))
   \<and> find_largest_increase_and_decrease_rounded quarter_rounding [- 1, - 2, 1, - 3, 2] =
       (Fin 5, Fin 4)"
  using C4_find_largest_increase_and_decrease[OF float_rounding_quarter, of "[1 / 10, 4 / 10]"]
    float_rounding_quarter quarter_rounding_rounds quarter_rounding_example
  by simp

section \<open>Properties of the missing-interval calculation\<close>

lemma dates_of_simps:
  "dates_of [] = {}"
  "dates_of (ivs @ [(a, b)]) = dates_of ivs \<union> {a..b}"
  "dates_of [(a, b)] = {a..b}"
  by (auto simp: dates_of_def)

lemma ascending_disjoint_simps:
  "ascending_disjoint []"
  "ascending_disjoint [(a, b)] = (a \<le> b)"
  "ascending_disjoint (ivs @ [(a, b)]) =
     (ascending_disjoint ivs \<and> a \<le> b \<and> (\<forall>(c, d) \<in> set ivs. d < a))"
  by (auto simp: ascending_disjoint_def sorted_wrt_append)

lemma gap_inv_first:
  assumes "s \<le> d"
  shows "gap_inv s d (if d > s then [(s, d - 1)] else []) {d}"
  using assms by (auto simp: gap_inv_def dates_of_simps ascending_disjoint_simps)

lemma gap_inv_step:
  assumes "gap_inv s p missing D" "p < d"
  shows "gap_inv s d (if d - 1 > p then missing @ [(p + 1, d - 1)] else missing) (insert d D)"
proof (cases "d - 1 > p")
  case True
  from assms have sp: "s \<le> p" and D: "D \<subseteq> {s..p}" by (auto simp: gap_inv_def)
  have m: "\<forall>(a, b) \<in> set missing. s \<le> a \<and> b < p" using assms by (simp add: gap_inv_def)
  have u: "dates_of missing \<union> D = {s..p}" and i: "dates_of missing \<inter> D = {}"
    using assms by (simp_all add: gap_inv_def)
  have md: "dates_of missing \<subseteq> {s..p}" using u by blast
  have 1: "ascending_disjoint (missing @ [(p + 1, d - 1)])"
    using assms True m by (auto simp: ascending_disjoint_simps gap_inv_def)
  have 2: "\<forall>(a, b) \<in> set (missing @ [(p + 1, d - 1)]). s \<le> a \<and> b < d"
    using m sp assms(2) by auto
  have 3: "dates_of (missing @ [(p + 1, d - 1)]) \<union> insert d D = {s..d}"
  proof -
    have "dates_of (missing @ [(p + 1, d - 1)]) \<union> insert d D = (dates_of missing \<union> D) \<union> ({p + 1..d - 1} \<union> {d})"
      by (auto simp: dates_of_simps)
    also have "\<dots> = {s..p} \<union> ({p + 1..d - 1} \<union> {d})" by (simp only: u)
    also have "\<dots> = {s..d}" using sp assms(2) by auto
    finally show ?thesis .
  qed
  have 4: "dates_of (missing @ [(p + 1, d - 1)]) \<inter> insert d D = {}"
    using i md D assms(2) by (auto simp: dates_of_simps)
  from True 1 2 3 4 show ?thesis by (simp add: gap_inv_def)
next
  case False
  with assms have d: "d = p + 1" by simp
  from assms have sp: "s \<le> p" and D: "D \<subseteq> {s..p}" by (auto simp: gap_inv_def)
  have m: "\<forall>(a, b) \<in> set missing. s \<le> a \<and> b < p" using assms by (simp add: gap_inv_def)
  have u: "dates_of missing \<union> D = {s..p}" and i: "dates_of missing \<inter> D = {}"
    using assms by (simp_all add: gap_inv_def)
  have md: "dates_of missing \<subseteq> {s..p}" using u by blast
  have 1: "ascending_disjoint missing" using assms by (simp add: gap_inv_def)
  have 2: "\<forall>(a, b) \<in> set missing. s \<le> a \<and> b < d" using m d by auto
  have 3: "dates_of missing \<union> insert d D = {s..d}"
  proof -
    have "dates_of missing \<union> insert d D = (dates_of missing \<union> D) \<union> {d}" by auto
    also have "\<dots> = {s..p} \<union> {d}" by (simp only: u)
    also have "\<dots> = {s..d}" using sp d by auto
    finally show ?thesis .
  qed
  have 4: "dates_of missing \<inter> insert d D = {}" using i md d by auto
  from False 1 2 3 4 show ?thesis by (simp add: gap_inv_def)
qed

lemma scan_dates_inv:
  "gap_inv s p missing D \<Longrightarrow> sorted_wrt (<) (p # ds) \<Longrightarrow>
   \<exists>p' missing'. scan_dates s (Some p, missing) ds = (Some p', missing') \<and>
      gap_inv s p' missing' (D \<union> set ds) \<and> p' = last (p # ds)"
proof (induction ds arbitrary: p missing D)
  case Nil
  then show ?case by simp
next
  case (Cons d ds)
  from Cons.prems have pd: "p < d" and srt: "sorted_wrt (<) (d # ds)" by auto
  let ?m = "if d - 1 > p then missing @ [(p + 1, d - 1)] else missing"
  have inv: "gap_inv s d ?m (insert d D)" using gap_inv_step[OF Cons.prems(1) pd] .
  from Cons.IH[OF inv srt] obtain p' missing' where
    r: "scan_dates s (Some d, ?m) ds = (Some p', missing')"
       "gap_inv s p' missing' (insert d D \<union> set ds)" "p' = last (d # ds)" by blast
  have "scan_dates s (Some p, missing) (d # ds) = scan_dates s (Some d, ?m) ds" by simp
  with r show ?case by simp
qed

lemma scan_dates_from_start:
  assumes "ds \<noteq> []" "sorted_wrt (<) ds" "set ds \<subseteq> {s..e}"
  shows "\<exists>p missing. scan_dates s (None, []) ds = (Some p, missing) \<and>
      gap_inv s p missing (set ds) \<and> p = last ds"
proof -
  from assms(1) obtain d ds' where ds: "ds = d # ds'" by (cases ds) auto
  with assms have sd: "s \<le> d" and srt: "sorted_wrt (<) (d # ds')" by auto
  let ?m = "if d > s then [(s, d - 1)] else []"
  from scan_dates_inv[OF gap_inv_first[OF sd] srt] obtain p missing where
    r: "scan_dates s (Some d, ?m) ds' = (Some p, missing)"
       "gap_inv s p missing ({d} \<union> set ds')" "p = last (d # ds')" by blast
  have "scan_dates s (None, []) (d # ds') = scan_dates s (Some d, ?m) ds'" by simp
  with r ds show ?thesis by simp
qed

lemma scan_dates_append:
  "scan_dates s st (xs @ ys) = scan_dates s (scan_dates s st xs) ys"
proof (induction xs arbitrary: st)
  case Nil
  show ?case by (cases st) simp
next
  case (Cons x xs)
  show ?case by (cases st) (simp add: Cons.IH)
qed

text \<open>The frames \<^verbatim>\<open>_select\<close> delivers: at least one, none empty unless it is the only one.\<close>

declare chunks_of.simps [simp del]

lemma chunks_of_Nil: "chunks_of n [] = []"
  by (subst chunks_of.simps) simp

lemma chunks_of_step:
  "0 < n \<Longrightarrow> xs \<noteq> [] \<Longrightarrow> chunks_of n xs = take n xs # chunks_of n (drop n xs)"
  by (subst chunks_of.simps) simp

lemma chunks_of_concat: "0 < n \<Longrightarrow> concat (chunks_of n xs) = xs"
proof (induction n xs rule: chunks_of.induct)
  case (1 n xs)
  show ?case
  proof (cases "xs = []")
    case True
    then show ?thesis by (simp add: chunks_of_Nil)
  next
    case False
    with 1 have "concat (chunks_of n (drop n xs)) = drop n xs" by simp
    with False 1(2) show ?thesis by (simp add: chunks_of_step)
  qed
qed

lemma chunks_of_no_empty: "0 < n \<Longrightarrow> [] \<notin> set (chunks_of n xs)"
proof (induction n xs rule: chunks_of.induct)
  case (1 n xs)
  show ?case
  proof (cases "xs = []")
    case True
    then show ?thesis by (simp add: chunks_of_Nil)
  next
    case False
    with 1 have "[] \<notin> set (chunks_of n (drop n xs))" by simp
    with False 1(2) show ?thesis by (simp add: chunks_of_step)
  qed
qed

lemma chunks_of_nonempty: "0 < n \<Longrightarrow> xs \<noteq> [] \<Longrightarrow> chunks_of n xs \<noteq> []"
  by (simp add: chunks_of_step)

lemma select_shape:
  "DatabaseOp_select rows \<noteq> []"
  "concat (DatabaseOp_select rows) = rows"
  "concat (DatabaseOp_select rows) = [] \<or> [] \<notin> set (DatabaseOp_select rows)"
  by (simp_all add: DatabaseOp_select_def chunks_of_concat chunks_of_no_empty chunks_of_nonempty)

text \<open>
  When every empty chunk arrives after a gap, the early return never fires, and the
  stream is scanned like its concatenation.
\<close>

lemma missing_nonempty_after_gap:
  assumes "ds \<noteq> []" "sorted_wrt (<) ds" "set ds \<subseteq> {s..e}" "set ds \<noteq> {s..last ds}"
  shows "\<exists>p missing. scan_dates s (None, []) ds = (Some p, missing) \<and> missing \<noteq> []"
proof -
  from scan_dates_from_start[OF assms(1-3)] obtain p missing where
    r: "scan_dates s (None, []) ds = (Some p, missing)" "gap_inv s p missing (set ds)" "p = last ds"
    by blast
  have "missing \<noteq> []"
  proof
    assume "missing = []"
    with r(2) have "set ds = {s..p}" by (simp add: gap_inv_def dates_of_simps)
    with r(3) assms(4) show False by simp
  qed
  with r(1) show ?thesis by blast
qed

lemma scan_chunks_after_gap:
  assumes "empty_chunks_after_gap s seen cs"
    and "sorted_wrt (<) (seen @ concat cs)" and "set (seen @ concat cs) \<subseteq> {s..e}"
  shows "scan_chunks s e (scan_dates s (None, []) seen) cs =
         scan_chunks s e (scan_dates s (None, []) (seen @ concat cs)) []"
  using assms
proof (induction cs arbitrary: seen)
  case Nil
  show ?case by simp
next
  case (Cons c cs)
  from Cons.prems(1) have rest: "empty_chunks_after_gap s (seen @ c) cs" by simp
  have srt: "sorted_wrt (<) ((seen @ c) @ concat cs)" and rng: "set ((seen @ c) @ concat cs) \<subseteq> {s..e}"
    using Cons.prems(2,3) by simp_all
  have ih: "scan_chunks s e (scan_dates s (None, []) (seen @ c)) cs =
      scan_chunks s e (scan_dates s (None, []) ((seen @ c) @ concat cs)) []"
    by (rule Cons.IH[OF rest srt rng])
  show ?case
  proof (cases "c = []")
    case True
    with Cons.prems(1) have seen: "seen \<noteq> []" "set seen \<noteq> {s..last seen}" by simp_all
    have "sorted_wrt (<) seen" "set seen \<subseteq> {s..e}"
      using Cons.prems(2,3) by (simp_all add: sorted_wrt_append)
    from missing_nonempty_after_gap[OF seen(1) this seen(2)] obtain p missing where
      st: "scan_dates s (None, []) seen = (Some p, missing)" and ne: "missing \<noteq> []" by blast
    have "scan_chunks s e (scan_dates s (None, []) seen) (c # cs) =
        scan_chunks s e (scan_dates s (None, []) seen) cs"
      using True ne by (simp add: st)
    with ih True show ?thesis by simp
  next
    case False
    obtain prev missing where st: "scan_dates s (None, []) seen = (prev, missing)"
      by (cases "scan_dates s (None, []) seen")
    have "scan_chunks s e (scan_dates s (None, []) seen) (c # cs) =
        scan_chunks s e (scan_dates s (scan_dates s (None, []) seen) c) cs"
      using False by (simp add: st)
    also have "\<dots> = scan_chunks s e (scan_dates s (None, []) (seen @ c)) cs"
      by (simp only: scan_dates_append)
    finally show ?thesis using ih by simp
  qed
qed

lemma no_empty_chunk_after_gap: "[] \<notin> set cs \<Longrightarrow> empty_chunks_after_gap s seen cs"
  by (induction cs arbitrary: seen) auto

lemma gaps_complete:
  assumes se: "s \<le> e" and ne: "chunks \<noteq> []"
    and chunks: "concat chunks = [] \<or> empty_chunks_after_gap s [] chunks"
    and srt: "sorted_wrt (<) (concat chunks)"
    and rng: "set (concat chunks) \<subseteq> {s..e}"
  shows "\<exists>gaps. calculate_missing_date_intervals s e chunks = Inr gaps \<and>
      ascending_disjoint gaps \<and>
      dates_of gaps \<inter> set (concat chunks) = {} \<and>
      dates_of gaps \<union> set (concat chunks) = {s..e}"
proof (cases "concat chunks = []")
  case True
  from ne obtain c cs where cc: "chunks = c # cs" by (cases chunks) auto
  with True have "c = []" by simp
  with cc have res: "calculate_missing_date_intervals s e chunks = Inr [(s, e)]"
    by (simp add: calculate_missing_date_intervals_def)
  have no_dates: "set (concat chunks) = {}" by (simp only: True list.set)
  show ?thesis unfolding no_dates res
    using se by (simp add: dates_of_simps ascending_disjoint_simps)
next
  case False
  with chunks have ok: "empty_chunks_after_gap s [] chunks" by blast
  let ?ds = "concat chunks"
  from scan_dates_from_start[OF False srt rng] obtain p missing where
    r: "scan_dates s (None, []) ?ds = (Some p, missing)" "gap_inv s p missing (set ?ds)"
       "p = last ?ds" by blast
  have pe: "p \<le> e" using r(3) False rng last_in_set[OF False] by auto
  have sp: "s \<le> p" and D: "set ?ds \<subseteq> {s..p}" using r(2) by (auto simp: gap_inv_def)
  have m: "\<forall>(a, b) \<in> set missing. s \<le> a \<and> b < p" using r(2) by (simp add: gap_inv_def)
  have u: "dates_of missing \<union> set ?ds = {s..p}" and i: "dates_of missing \<inter> set ?ds = {}"
    using r(2) by (simp_all add: gap_inv_def)
  have ad: "ascending_disjoint missing" using r(2) by (simp add: gap_inv_def)
  let ?gaps = "if p < e then missing @ [(p + 1, e)] else missing"
  have "scan_chunks s e (scan_dates s (None, []) []) chunks =
      scan_chunks s e (scan_dates s (None, []) ([] @ ?ds)) []"
  proof (rule scan_chunks_after_gap[OF ok])
    show "sorted_wrt (<) ([] @ ?ds)" using srt by simp
    show "set ([] @ ?ds) \<subseteq> {s..e}" using rng by simp
  qed
  then have res: "calculate_missing_date_intervals s e chunks = Inr ?gaps"
    unfolding calculate_missing_date_intervals_def by (simp add: r(1))
  have 1: "ascending_disjoint ?gaps"
    using ad m by (auto simp: ascending_disjoint_simps)
  have 2: "dates_of ?gaps \<inter> set ?ds = {}"
    using i D by (auto simp: dates_of_simps)
  have 3: "dates_of ?gaps \<union> set ?ds = {s..e}"
  proof (cases "p < e")
    case True
    have "dates_of (missing @ [(p + 1, e)]) \<union> set ?ds = (dates_of missing \<union> set ?ds) \<union> {p + 1..e}"
      by (auto simp: dates_of_simps)
    also have "\<dots> = {s..p} \<union> {p + 1..e}" by (simp only: u)
    also have "\<dots> = {s..e}" using sp True by auto
    finally show ?thesis using True by simp
  next
    case False
    with pe have "p = e" by simp
    with u False show ?thesis by simp
  qed
  from res 1 2 3 show ?thesis by blast
qed

lemma select_after_gap:
  "concat (DatabaseOp_select rows) = [] \<or> empty_chunks_after_gap s [] (DatabaseOp_select rows)"
  using select_shape(3)[of rows] no_empty_chunk_after_gap by blast

lemma gaps_on_selected_stream:
  assumes "s \<le> e" "sorted_wrt (<) rows" "set rows \<subseteq> {s..e}"
  shows "\<exists>gaps. calculate_missing_date_intervals s e (DatabaseOp_select rows) = Inr gaps \<and>
      ascending_disjoint gaps \<and> dates_of gaps \<inter> set rows = {} \<and>
      dates_of gaps \<union> set rows = {s..e}"
  using gaps_complete[OF assms(1) select_shape(1) select_after_gap, of rows] assms(2,3)
  by (simp add: select_shape(2))

lemma empty_chunk_between_example:
  "calculate_missing_date_intervals 1 5 [[2], [], [4]] = Inr [(1, 1), (3, 3), (5, 5)]"
  "empty_chunks_after_gap 1 [] [[2], [], [4]]"
proof -
  show "calculate_missing_date_intervals 1 5 [[2], [], [4]] = Inr [(1, 1), (3, 3), (5, 5)]"
    by (simp add: calculate_missing_date_intervals_def)
  have "{2} \<noteq> {1 :: int..2}"
  proof
    assume a: "{2} = {1 :: int..2}"
    have "(1 :: int) \<in> {1..2}" by simp
    then have "(1 :: int) \<in> {2}" by (simp only: a)
    then show False by simp
  qed
  then show "empty_chunks_after_gap 1 [] [[2], [], [4]]" by simp
qed


lemma ymd_simps:
  "ymd 2025 1 1 = 739252" "ymd 2025 1 3 = 739254" "ymd 2025 1 4 = 739255"
  "ymd 2025 1 5 = 739256" "ymd 2025 1 6 = 739257" "ymd 2025 1 7 = 739258"
  "ymd 2025 1 8 = 739259" "ymd 2025 1 9 = 739260" "ymd 2025 1 10 = 739261"
  "ymd 2025 2 1 = 739283"
  by (simp_all add: ymd_def days_before_year_def days_before_month_def is_leap_def)

lemma gaps_example:
  "calculate_missing_date_intervals (ymd 2025 1 1) (ymd 2025 2 1)
     [[ymd 2025 1 4, ymd 2025 1 5, ymd 2025 1 8, ymd 2025 1 9]] =
   Inr [(ymd 2025 1 1, ymd 2025 1 3), (ymd 2025 1 6, ymd 2025 1 7),
        (ymd 2025 1 10, ymd 2025 2 1)]"
  by (simp add: calculate_missing_date_intervals_def ymd_simps)

text \<open>
  The condition on empty chunks cannot be dropped: an empty chunk that follows the
  covered start date, with no gap yet, is answered with the whole request.
\<close>

lemma early_return_after_covered_start:
  "calculate_missing_date_intervals (ymd 2025 1 1) (ymd 2025 1 3) [[ymd 2025 1 1], []] =
     Inr [(ymd 2025 1 1, ymd 2025 1 3)]"
  by (simp add: calculate_missing_date_intervals_def ymd_simps)

text \<open>
  Claim C1. For every requested interval with \<open>start_date \<le> end_date\<close> and every coverage
  stream of strictly ascending dates \<open>rows\<close> within the interval,
  \<^verbatim>\<open>_calculate_missing_date_intervals\<close> returns a list of intervals that is ascending and
  pairwise disjoint, contains no covered date, and together with the covered dates is
  exactly the set of dates of the requested interval. This holds of the stream as
  \<^verbatim>\<open>_select\<close> delivers it, and of every delivery of the dates in one or more chunks of
  any sizes in which an empty chunk, if there is one, arrives after a gap (or no date is
  covered at all). The coverage \<open>{2025-01-04, 2025-01-05, 2025-01-08, 2025-01-09}\<close> inside
  the request \<open>2025-01-01..2025-02-01\<close> gives the gaps \<open>(01-01, 01-03)\<close>,
  \<open>(01-06, 01-07)\<close>, \<open>(01-10, 02-01)\<close>.
\<close>

theorem C1_missing_intervals_complement_coverage:
  assumes "start_date \<le> end_date"
    and "sorted_wrt (<) rows"
    and "set rows \<subseteq> {start_date..end_date}"
  shows "(\<exists>gaps. calculate_missing_date_intervals start_date end_date (DatabaseOp_select rows) =
              Inr gaps \<and>
            ascending_disjoint gaps \<and>
            dates_of gaps \<inter> set rows = {} \<and>
            dates_of gaps \<union> set rows = {start_date..end_date})
         \<and> (chunks \<noteq> [] \<and> concat chunks = rows
              \<and> (rows = [] \<or> empty_chunks_after_gap start_date [] chunks)
             \<longrightarrow> (\<exists>gaps. calculate_missing_date_intervals start_date end_date chunks = Inr gaps \<and>
                    ascending_disjoint gaps \<and>
                    dates_of gaps \<inter> set rows = {} \<and>
                    dates_of gaps \<union> set rows = {start_date..end_date}))
         \<and> calculate_missing_date_intervals (ymd 2025 1 1) (ymd 2025 2 1)
              [[ymd 2025 1 4, ymd 2025 1 5, ymd 2025 1 8, ymd 2025 1 9]] =
            Inr [(ymd 2025 1 1, ymd 2025 1 3), (ymd 2025 1 6, ymd 2025 1 7),
                 (ymd 2025 1 10, ymd 2025 2 1)]"
proof -
  have a: "\<exists>gaps. calculate_missing_date_intervals start_date end_date (DatabaseOp_select rows) =
              Inr gaps \<and>
            ascending_disjoint gaps \<and>
            dates_of gaps \<inter> set rows = {} \<and>
            dates_of gaps \<union> set rows = {start_date..end_date}"
    by (rule gaps_on_selected_stream[OF assms])
  have b: "chunks \<noteq> [] \<and> concat chunks = rows
              \<and> (rows = [] \<or> empty_chunks_after_gap start_date [] chunks)
             \<longrightarrow> (\<exists>gaps. calculate_missing_date_intervals start_date end_date chunks = Inr gaps \<and>
                    ascending_disjoint gaps \<and>
                    dates_of gaps \<inter> set rows = {} \<and>
                    dates_of gaps \<union> set rows = {start_date..end_date})"
  proof
    assume h: "chunks \<noteq> [] \<and> concat chunks = rows
              \<and> (rows = [] \<or> empty_chunks_after_gap start_date [] chunks)"
    then have c: "concat chunks = rows" by simp
    from h have "concat chunks = [] \<or> empty_chunks_after_gap start_date [] chunks" by simp
    from gaps_complete[OF assms(1) _ this, unfolded c] h assms(2,3)
    show "\<exists>gaps. calculate_missing_date_intervals start_date end_date chunks = Inr gaps \<and>
                    ascending_disjoint gaps \<and>
                    dates_of gaps \<inter> set rows = {} \<and>
                    dates_of gaps \<union> set rows = {start_date..end_date}"
      by blast
  qed
  from a b gaps_example show ?thesis by blast
qed

theorem C1_witness_spec_example:
  "ascending_disjoint
     [(ymd 2025 1 1, ymd 2025 1 3), (ymd 2025 1 6, ymd 2025 1 7), (ymd 2025 1 10, ymd 2025 2 1)]
   \<and> dates_of
     [(ymd 2025 1 1, ymd 2025 1 3), (ymd 2025 1 6, ymd 2025 1 7), (ymd 2025 1 10, ymd 2025 2 1)]
       \<union> set [ymd 2025 1 4, ymd 2025 1 5, ymd 2025 1 8, ymd 2025 1 9]
     = {ymd 2025 1 1..ymd 2025 2 1}
   \<and> dates_of
     [(ymd 2025 1 1, ymd 2025 1 3), (ymd 2025 1 6, ymd 2025 1 7), (ymd 2025 1 10, ymd 2025 2 1)]
       \<inter> set [ymd 2025 1 4, ymd 2025 1 5, ymd 2025 1 8, ymd 2025 1 9]
     = {}"
proof -
  let ?rows = "[ymd 2025 1 4, ymd 2025 1 5, ymd 2025 1 8, ymd 2025 1 9]"
  have h1: "ymd 2025 1 1 \<le> ymd 2025 2 1" by (simp add: ymd_simps)
  have h2: "sorted_wrt (<) ?rows" by (simp add: ymd_simps)
  have h3: "set ?rows \<subseteq> {ymd 2025 1 1..ymd 2025 2 1}" by (simp add: ymd_simps)
  have h4: "[?rows] \<noteq> [] \<and> concat [?rows] = ?rows
      \<and> (?rows = [] \<or> empty_chunks_after_gap (ymd 2025 1 1) [] [?rows])" by simp
  from C1_missing_intervals_complement_coverage[OF h1 h2 h3, of "[?rows]"] h4
  have "\<exists>gaps. calculate_missing_date_intervals (ymd 2025 1 1) (ymd 2025 2 1) [?rows] = Inr gaps \<and>
      ascending_disjoint gaps \<and> dates_of gaps \<inter> set ?rows = {} \<and>
      dates_of gaps \<union> set ?rows = {ymd 2025 1 1..ymd 2025 2 1}"
    by blast
  then show ?thesis unfolding gaps_example by blast
qed

text \<open>
  A stream with no chunk at all is not one \<^verbatim>\<open>_select\<close> delivers. On it the loop body
  never runs, \<^verbatim>\<open>prev_date\<close> stays \<^verbatim>\<open>None\<close>, and the comparison after the loop raises
  \<^verbatim>\<open>TypeError\<close>.
\<close>

lemma no_chunks_type_error:
  "calculate_missing_date_intervals start_date end_date [] = Inl TypeError"
  by (simp add: calculate_missing_date_intervals_def)



section \<open>Properties of the request handler\<close>

lemma handled_are_request_exceptions:
  "is_Timeout e \<Longrightarrow> is_RequestException e"
  "is_ConnectionError e \<Longrightarrow> is_RequestException e"
  "is_HTTPError e \<Longrightarrow> is_RequestException e"
  by (cases e; simp)+

lemma send_request_raises:
  "send_request_to_nbp_api (Raises e) =
     (if is_RequestException e
      then Inr (if is_Timeout e \<or> is_ConnectionError e then [LogWarning]
                else if e = HTTPError 404 then [LogDebug, LogDebug]
                else if is_HTTPError e then [LogDebug] else [LogWarning], [])
      else Inl (Propagated e))"
  by (cases e; simp add: send_request_to_nbp_api_def)

text \<open>
  Claim C7, as stated, lets only timeouts, refused connections and the explicit
  no-data answer degrade to an empty result, and has every other failure reach the
  caller. The handlers catch more: an HTTP error of any status (here 500) and any other
  exception of the library (here \<^verbatim>\<open>InvalidURL\<close>) end in the empty list as well.
\<close>

theorem C7_counterexample_protocol_errors_swallowed:
  "\<not> is_Timeout (HTTPError 500) \<and> \<not> is_ConnectionError (HTTPError 500)
   \<and> HTTPError 500 \<noteq> HTTPError 404
   \<and> send_request_to_nbp_api (Raises (HTTPError 500) :: response http_outcome) =
       Inr ([LogDebug], [])
   \<and> send_request_to_nbp_api (Raises InvalidURL :: response http_outcome) =
       Inr ([LogWarning], [])"
  by (simp add: send_request_to_nbp_api_def)

text \<open>
  Claim C7, amended. In \<^verbatim>\<open>_send_request_to_nbp_api\<close>, a timeout, a connection failure,
  an HTTP error of any status (the no-data answer 404 among them) and every other
  exception of the \<^verbatim>\<open>requests\<close> hierarchy degrade to an empty result for that request;
  only an exception outside that hierarchy propagates to the caller.
\<close>

theorem C7_request_failures:
  "(is_RequestException e \<longrightarrow> (\<exists>logs. send_request_to_nbp_api (Raises e) = Inr (logs, [])))
   \<and> (\<not> is_RequestException e \<longrightarrow> send_request_to_nbp_api (Raises e) = Inl (Propagated e))
   \<and> (is_Timeout e \<or> is_ConnectionError e \<or> is_HTTPError e \<longrightarrow> is_RequestException e)"
  using handled_are_request_exceptions[of e] by (simp add: send_request_raises)

theorem C7_witness_bad_request_and_value_error:
  "(\<exists>logs. send_request_to_nbp_api (Raises (HTTPError 400) :: response http_outcome) =
       Inr (logs, []))
   \<and> send_request_to_nbp_api (Raises (OtherException ''ValueError'') :: response http_outcome) =
       Inl (Propagated (OtherException ''ValueError''))"
  using C7_request_failures[of "HTTPError 400"] C7_request_failures[of "OtherException ''ValueError''"]
  by simp

section \<open>Properties of the insert\<close>

lemma insert_row_do_nothing:
  "insert_row OnConflictDoNothing db r = Inr ([natural_key r \<mapsto> currency_rate r] ++ db)"
  by (auto simp: insert_row_def fun_eq_iff map_add_def split: option.splits)

lemma rows_map_Cons:
  "rows_map (r # rs) ++ db = rows_map rs ++ ([natural_key r \<mapsto> currency_rate r] ++ db)"
  by (auto simp: rows_map_def fun_eq_iff map_add_def split: option.splits)

lemma insert_rows_do_nothing:
  "rs \<noteq> [] \<Longrightarrow> insert_rows OnConflictDoNothing db rs = Inr (rows_map rs ++ db)"
proof (induction rs arbitrary: db)
  case Nil
  then show ?case by simp
next
  case (Cons r rs)
  show ?case
  proof (cases rs)
    case Nil
    have "rows_map [r] ++ db = [natural_key r \<mapsto> currency_rate r] ++ db"
      by (simp add: rows_map_def)
    with Nil show ?thesis by (simp add: insert_row_do_nothing)
  next
    case (Cons r' rs')
    then have ne: "rs \<noteq> []" by simp
    have "insert_rows OnConflictDoNothing db (r # rs) =
        insert_rows OnConflictDoNothing ([natural_key r \<mapsto> currency_rate r] ++ db) rs"
      using Cons by (simp add: insert_row_do_nothing)
    also have "\<dots> = Inr (rows_map rs ++ ([natural_key r \<mapsto> currency_rate r] ++ db))"
      by (rule Cons.IH[OF ne])
    finally show ?thesis by (simp only: rows_map_Cons)
  qed
qed

lemma DatabaseOp_insert_eq:
  "input_data \<noteq> [] \<Longrightarrow> DatabaseOp_insert db input_data = Inr (rows_map input_data ++ db)"
  by (simp add: DatabaseOp_insert_def execute_def on_conflict_do_nothing_def
      sqlite_insert_values_def insert_rows_do_nothing)

lemma DatabaseOp_insert_empty: "DatabaseOp_insert db [] = Inl OperationalError"
  by (simp add: DatabaseOp_insert_def execute_def on_conflict_do_nothing_def
      sqlite_insert_values_def)

lemma map_add_twice: "m ++ (m ++ db) = m ++ db"
  by (auto simp: fun_eq_iff map_add_def split: option.splits)

lemma dom_rows_map: "dom (rows_map rs) = natural_key ` set rs"
  by (simp add: rows_map_def dom_map_of_conv_image_fst image_image)

lemma plain_insert_conflict:
  "db (natural_key r) = Some old \<Longrightarrow> execute db (sqlite_insert_values [r]) = Inl IntegrityError"
  by (simp add: execute_def sqlite_insert_values_def insert_row_def)

text \<open>
  Claim C5. For every list of records and every store, inserting the list a second time
  with \<^verbatim>\<open>_DatabaseOp.insert\<close> leaves the store as the first insert left it. For a list
  that holds records, the insert returns without an error; a record whose key
  \<open>(date, currency_code)\<close> was in the store keeps the stored rate, as does every other key
  of the store; and the keys of the store afterwards are the old keys and those of the
  list. The empty list holds no record: its statement is refused with
  \<^verbatim>\<open>OperationalError\<close> and the store stays as it was.
\<close>

theorem C5_insert_idempotent:
  "store_after (store_after db (DatabaseOp_insert db input_data))
       (DatabaseOp_insert (store_after db (DatabaseOp_insert db input_data)) input_data) =
     store_after db (DatabaseOp_insert db input_data)
   \<and> (input_data \<noteq> [] \<longrightarrow>
        (\<exists>db1. DatabaseOp_insert db input_data = Inr db1 \<and>
               DatabaseOp_insert db1 input_data = Inr db1 \<and>
               (\<forall>r \<in> set input_data. \<forall>old.
                  db (natural_key r) = Some old \<longrightarrow> db1 (natural_key r) = Some old) \<and>
               (\<forall>k \<in> dom db. db1 k = db k) \<and>
               dom db1 = dom db \<union> natural_key ` set input_data))
   \<and> DatabaseOp_insert db [] = Inl OperationalError"
proof (cases "input_data = []")
  case True
  then show ?thesis by (simp add: DatabaseOp_insert_empty store_after_def)
next
  case False
  let ?db1 = "rows_map input_data ++ db"
  have 1: "DatabaseOp_insert db input_data = Inr ?db1" by (rule DatabaseOp_insert_eq[OF False])
  have 2: "DatabaseOp_insert ?db1 input_data = Inr ?db1"
    unfolding DatabaseOp_insert_eq[OF False, of "rows_map input_data ++ db"]
    by (simp only: map_add_twice)
  have 3: "\<forall>k \<in> dom db. ?db1 k = db k" by (auto simp: map_add_def)
  have 4: "\<forall>r \<in> set input_data. \<forall>old.
      db (natural_key r) = Some old \<longrightarrow> ?db1 (natural_key r) = Some old"
    by (auto simp: map_add_def)
  have 5: "dom ?db1 = dom db \<union> natural_key ` set input_data"
    by (auto simp: dom_rows_map)
  have 6: "store_after (store_after db (DatabaseOp_insert db input_data))
             (DatabaseOp_insert (store_after db (DatabaseOp_insert db input_data)) input_data) =
           store_after db (DatabaseOp_insert db input_data)"
    by (simp add: 1 2 store_after_def)
  from 1 2 3 4 5 6 DatabaseOp_insert_empty[of db] show ?thesis by blast
qed

text \<open>
  The store holds the rate 4.2 of EUR for 2025-01-01 (ordinal 739252); the list brings
  another rate for that key and a rate for the next day.
\<close>

theorem C5_witness_existing_key_kept:
  "\<exists>db1. DatabaseOp_insert [(739252, ''EUR'') \<mapsto> 4.2]
            [\<lparr>date = 739252, currency_code = ''EUR'', currency_rate = 4.5\<rparr>,
             \<lparr>date = 739253, currency_code = ''EUR'', currency_rate = 4.3\<rparr>] = Inr db1
        \<and> DatabaseOp_insert db1
            [\<lparr>date = 739252, currency_code = ''EUR'', currency_rate = 4.5\<rparr>,
             \<lparr>date = 739253, currency_code = ''EUR'', currency_rate = 4.3\<rparr>] = Inr db1
        \<and> db1 (739252, ''EUR'') = Some 4.2
        \<and> dom db1 = {(739252, ''EUR''), (739253, ''EUR'')}"
proof -
  let ?db = "[(739252 :: int, ''EUR'') \<mapsto> 4.2 :: real]"
  let ?r1 = "\<lparr>date = 739252, currency_code = ''EUR'', currency_rate = 4.5\<rparr>"
  let ?r2 = "\<lparr>date = 739253, currency_code = ''EUR'', currency_rate = 4.3\<rparr>"
  have ne: "[?r1, ?r2] \<noteq> []" by simp
  from C5_insert_idempotent[of ?db "[?r1, ?r2]"] ne obtain db1 where
    a: "DatabaseOp_insert ?db [?r1, ?r2] = Inr db1"
    and b: "DatabaseOp_insert db1 [?r1, ?r2] = Inr db1"
    and c: "\<forall>r \<in> set [?r1, ?r2]. \<forall>old.
        ?db (natural_key r) = Some old \<longrightarrow> db1 (natural_key r) = Some old"
    and d: "dom db1 = dom ?db \<union> natural_key ` set [?r1, ?r2]"
    by blast
  from c have "db1 (739252, ''EUR'') = Some 4.2" by (simp add: natural_key_def)
  moreover from d have "dom db1 = {(739252, ''EUR''), (739253, ''EUR'')}"
    by (auto simp: natural_key_def)
  ultimately show ?thesis using a b by blast
qed

section \<open>Properties of the analytical reports\<close>

lemma json_zero: "json_currency_report ct \<lparr>curr_code = k, cm_value = Fin 0\<rparr> = Inr [(ct, JNull)]"
  by (simp add: json_currency_report_def)

lemma json_nodata: "json_currency_report ct \<lparr>curr_code = KNone, cm_value = v\<rparr> = Inr [(ct, JNull)]"
  by (simp add: json_currency_report_def)

lemma json_nonzero: "r \<noteq> 0 \<Longrightarrow> json_currency_report ct \<lparr>curr_code = KTuple [c], cm_value = Fin r\<rparr> =
   Inr [(ct, JNum (Fin r)), (''currency_code'', JStr c)]"
  by (simp add: json_currency_report_def)

lemma csv_zero: "csv_currency_report ct \<lparr>curr_code = k, cm_value = Fin 0\<rparr> = Inr [Line ct JNull]"
  by (simp add: csv_currency_report_def)

lemma csv_nodata: "csv_currency_report ct \<lparr>curr_code = KNone, cm_value = v\<rparr> = Inr [Line ct JNull]"
  by (simp add: csv_currency_report_def)

lemma csv_nonzero: "r \<noteq> 0 \<Longrightarrow> csv_currency_report ct \<lparr>curr_code = KTuple [c], cm_value = Fin r\<rparr> =
   Inr [Line ct (JNum (Fin r)), Line ''currency_code'' (JStr c), EmptyLine]"
  by (simp add: csv_currency_report_def)

text \<open>
  Claim C8, as stated, has the zero-change extremum (value 0 with a currency code)
  written with its code and the value 0, unlike the no-data extremum. The reports test
  \<^verbatim>\<open>value and curr_code\<close>, and 0 is false: both extrema give the same entry, in the
  JSON report and in the CSV report. The first extremum is what the analysis returns for
  a currency whose rate stays at 4.2, the second what it returns for a stream without
  chunks.
\<close>

theorem C8_counterexample_zero_change_rendered_as_none:
  "generate_json_report_with_analytical_data
     [(''max_recorded_increase'', \<lparr>curr_code = KTuple [''EUR''], cm_value = Fin 0\<rparr>),
      (''max_recorded_decrease'', \<lparr>curr_code = KTuple [''EUR''], cm_value = Fin 0\<rparr>)] =
   generate_json_report_with_analytical_data
     [(''max_recorded_increase'', \<lparr>curr_code = KNone, cm_value = NegInf\<rparr>),
      (''max_recorded_decrease'', \<lparr>curr_code = KNone, cm_value = NegInf\<rparr>)]
   \<and> generate_csv_report_with_analytical_data
     [(''max_recorded_increase'', \<lparr>curr_code = KTuple [''EUR''], cm_value = Fin 0\<rparr>),
      (''max_recorded_decrease'', \<lparr>curr_code = KTuple [''EUR''], cm_value = Fin 0\<rparr>)] =
   generate_csv_report_with_analytical_data
     [(''max_recorded_increase'', \<lparr>curr_code = KNone, cm_value = NegInf\<rparr>),
      (''max_recorded_decrease'', \<lparr>curr_code = KNone, cm_value = NegInf\<rparr>)]
   \<and> generate_json_report_with_analytical_data
     [(''max_recorded_increase'', \<lparr>curr_code = KTuple [''EUR''], cm_value = Fin 0\<rparr>),
      (''max_recorded_decrease'', \<lparr>curr_code = KTuple [''EUR''], cm_value = Fin 0\<rparr>)] =
   Inr [[(''max_recorded_increase'', JNull)], [(''max_recorded_decrease'', JNull)]]
   \<and> get_largest_exchange_rate_increase_and_decrease
       [series ''EUR'' 739252 [42 / 10, 42 / 10, 42 / 10]] =
     Inr [(''max_recorded_increase'', \<lparr>curr_code = KTuple [''EUR''], cm_value = Fin 0\<rparr>),
          (''max_recorded_decrease'', \<lparr>curr_code = KTuple [''EUR''], cm_value = Fin 0\<rparr>)]
   \<and> get_largest_exchange_rate_increase_and_decrease [] =
     Inr [(''max_recorded_increase'', \<lparr>curr_code = KNone, cm_value = NegInf\<rparr>),
          (''max_recorded_decrease'', \<lparr>curr_code = KNone, cm_value = NegInf\<rparr>)]"
  by (simp add: json_currency_report_def csv_currency_report_def
      get_largest_exchange_rate_increase_and_decrease_def chunk_step_def group_step_def
      groupby_currency_code_def find_largest_increase_and_decrease_def py_min_def py_max_def
      Let_def pd_concat_def)

text \<open>
  Claim C8, amended. In both analytical reports an extremum with value exactly 0 is
  rendered as none (the change type with a null value and no currency code), exactly as
  the no-data extremum is; an extremum with a non-zero value and a known currency code is
  rendered with its value and its currency code, and that entry differs from the no-data
  entry.
\<close>

theorem C8_report_entries:
  "json_currency_report change_type \<lparr>curr_code = code, cm_value = Fin 0\<rparr> =
     json_currency_report change_type \<lparr>curr_code = KNone, cm_value = NegInf\<rparr>
   \<and> csv_currency_report change_type \<lparr>curr_code = code, cm_value = Fin 0\<rparr> =
     csv_currency_report change_type \<lparr>curr_code = KNone, cm_value = NegInf\<rparr>
   \<and> (r \<noteq> 0 \<longrightarrow>
        json_currency_report change_type \<lparr>curr_code = KTuple [c], cm_value = Fin r\<rparr> =
          Inr [(change_type, JNum (Fin r)), (''currency_code'', JStr c)]
        \<and> json_currency_report change_type \<lparr>curr_code = KTuple [c], cm_value = Fin r\<rparr> \<noteq>
          json_currency_report change_type \<lparr>curr_code = KNone, cm_value = NegInf\<rparr>
        \<and> csv_currency_report change_type \<lparr>curr_code = KTuple [c], cm_value = Fin r\<rparr> =
          Inr [Line change_type (JNum (Fin r)), Line ''currency_code'' (JStr c), EmptyLine]
        \<and> csv_currency_report change_type \<lparr>curr_code = KTuple [c], cm_value = Fin r\<rparr> \<noteq>
          csv_currency_report change_type \<lparr>curr_code = KNone, cm_value = NegInf\<rparr>)"
  by (simp add: json_zero json_nodata json_nonzero csv_zero csv_nodata csv_nonzero)

theorem C8_witness_nonzero_entry:
  "json_currency_report ''max_recorded_increase''
       \<lparr>curr_code = KTuple [''EUR''], cm_value = Fin (1 / 5)\<rparr> =
     Inr [(''max_recorded_increase'', JNum (Fin (1 / 5))), (''currency_code'', JStr ''EUR'')]
   \<and> csv_currency_report ''max_recorded_increase''
       \<lparr>curr_code = KTuple [''EUR''], cm_value = Fin (1 / 5)\<rparr> =
     Inr [Line ''max_recorded_increase'' (JNum (Fin (1 / 5))),
          Line ''currency_code'' (JStr ''EUR''), EmptyLine]"
  using C8_report_entries[of "''max_recorded_increase''" KNone "1 / 5" "''EUR''"]
  by simp

section \<open>Properties of the chunked analysis\<close>

lemma find_largest_nonneg:
  "\<exists>a b. find_largest_increase_and_decrease rs = (Fin a, Fin b) \<and> 0 \<le> a \<and> 0 \<le> b"
proof -
  have "0 \<le> Max (insert 0 (increases rs))" "0 \<le> Max (insert 0 (decreases rs))"
    by (simp_all add: finite_increases finite_decreases)
  then show ?thesis using find_largest_eq[of rs] by blast
qed

lemma group_step_sets_code:
  assumes "group_step lc (inc, dec) (k, group_df) = (inc', dec')"
  shows "(curr_code inc = KNone \<longrightarrow> cm_value inc = NegInf) \<Longrightarrow> curr_code inc' \<noteq> KNone"
    and "(curr_code dec = KNone \<longrightarrow> cm_value dec = NegInf) \<Longrightarrow> curr_code dec' \<noteq> KNone"
proof -
  let ?df = "if KTuple [k] = curr_code lc then pd_concat (cm_value lc) group_df else group_df"
  obtain a b where ab: "find_largest_increase_and_decrease (map currency_rate ?df) = (Fin a, Fin b)"
    using find_largest_nonneg by blast
  from assms have i: "inc' = (if flt (cm_value inc) (Fin a) then \<lparr>curr_code = KTuple [k], cm_value = Fin a\<rparr> else inc)"
    and d: "dec' = (if flt (cm_value dec) (Fin b) then \<lparr>curr_code = KTuple [k], cm_value = Fin b\<rparr> else dec)"
    by (simp_all add: group_step_def Let_def ab)
  show "(curr_code inc = KNone \<longrightarrow> cm_value inc = NegInf) \<Longrightarrow> curr_code inc' \<noteq> KNone"
    using i by (cases "curr_code inc = KNone") auto
  show "(curr_code dec = KNone \<longrightarrow> cm_value dec = NegInf) \<Longrightarrow> curr_code dec' \<noteq> KNone"
    using d by (cases "curr_code dec = KNone") auto
qed

lemma group_step_first:
  "\<exists>a b. group_step lc (\<lparr>curr_code = KNone, cm_value = NegInf\<rparr>, \<lparr>curr_code = KNone, cm_value = NegInf\<rparr>)
      (k, group_df) =
     (\<lparr>curr_code = KTuple [k], cm_value = Fin a\<rparr>, \<lparr>curr_code = KTuple [k], cm_value = Fin b\<rparr>)"
proof -
  let ?df = "if KTuple [k] = curr_code lc then pd_concat (cm_value lc) group_df else group_df"
  obtain a b where ab: "find_largest_increase_and_decrease (map currency_rate ?df) = (Fin a, Fin b)"
    using find_largest_nonneg by blast
  then show ?thesis by (simp add: group_step_def Let_def)
qed

lemma foldl_group_step_known:
  "curr_code (fst acc) \<noteq> KNone \<Longrightarrow> curr_code (snd acc) \<noteq> KNone \<Longrightarrow>
   curr_code (fst (foldl (group_step lc) acc gs)) \<noteq> KNone \<and>
   curr_code (snd (foldl (group_step lc) acc gs)) \<noteq> KNone"
proof (induction gs arbitrary: acc)
  case Nil
  then show ?case by simp
next
  case (Cons g gs)
  obtain inc dec where acc: "acc = (inc, dec)" by (cases acc)
  obtain k df where g: "g = (k, df)" by (cases g)
  obtain inc' dec' where s: "group_step lc (inc, dec) (k, df) = (inc', dec')"
    by (cases "group_step lc (inc, dec) (k, df)")
  from Cons.prems acc have "curr_code inc' \<noteq> KNone" "curr_code dec' \<noteq> KNone"
    using group_step_sets_code[OF s] by simp_all
  then show ?case using Cons.IH[of "(inc', dec')"] acc g s by simp
qed

lemma foldl_group_step_fresh:
  assumes "curr_code inc = KNone \<longrightarrow> cm_value inc = NegInf"
    and "curr_code dec = KNone \<longrightarrow> cm_value dec = NegInf"
    and "gs \<noteq> []"
  shows "curr_code (fst (foldl (group_step lc) (inc, dec) gs)) \<noteq> KNone \<and>
         curr_code (snd (foldl (group_step lc) (inc, dec) gs)) \<noteq> KNone"
proof -
  from assms(3) obtain g gs' where gs: "gs = g # gs'" by (cases gs) auto
  obtain k df where g: "g = (k, df)" by (cases g)
  obtain inc' dec' where s: "group_step lc (inc, dec) (k, df) = (inc', dec')"
    by (cases "group_step lc (inc, dec) (k, df)")
  have "curr_code inc' \<noteq> KNone" "curr_code dec' \<noteq> KNone"
    using group_step_sets_code[OF s] assms(1,2) by simp_all
  then show ?thesis using foldl_group_step_known[of "(inc', dec')" lc gs'] gs g s by simp
qed

lemma chunk_step_known:
  assumes "chunk_step (inc, dec, lc) df_chunk = Inr (inc', dec', lc')"
    and "curr_code inc = KNone \<longrightarrow> cm_value inc = NegInf"
    and "curr_code dec = KNone \<longrightarrow> cm_value dec = NegInf"
  shows "curr_code inc' \<noteq> KNone \<and> curr_code dec' \<noteq> KNone"
proof -
  let ?gs = "groupby_currency_code df_chunk"
  from assms(1) have ne: "?gs \<noteq> []"
    by (auto simp: chunk_step_def Let_def split: prod.splits if_splits)
  from assms(1) ne have "foldl (group_step lc) (inc, dec) ?gs = (inc', dec')"
    by (auto simp: chunk_step_def Let_def split: prod.splits if_splits)
  with foldl_group_step_fresh[OF assms(2,3) ne, of lc] show ?thesis by simp
qed

lemma analyse_chunks_known:
  assumes "analyse_chunks (inc, dec, lc) df_iter = Inr (inc', dec', lc')"
    and "curr_code inc = KNone \<longrightarrow> cm_value inc = NegInf"
    and "curr_code dec = KNone \<longrightarrow> cm_value dec = NegInf"
    and "df_iter \<noteq> []"
  shows "curr_code inc' \<noteq> KNone \<and> curr_code dec' \<noteq> KNone"
  using assms
proof (induction df_iter arbitrary: inc dec lc)
  case Nil
  then show ?case by simp
next
  case (Cons c cs)
  from Cons.prems(1) obtain inc1 dec1 lc1 where
    c: "chunk_step (inc, dec, lc) c = Inr (inc1, dec1, lc1)"
    and r: "analyse_chunks (inc1, dec1, lc1) cs = Inr (inc', dec', lc')"
    by (auto split: sum.splits)
  have k: "curr_code inc1 \<noteq> KNone \<and> curr_code dec1 \<noteq> KNone"
    using chunk_step_known[OF c Cons.prems(2,3)] .
  show ?case
  proof (cases "cs = []")
    case True
    with r k show ?thesis by simp
  next
    case False
    from k show ?thesis using Cons.IH[OF r _ _ False] by simp
  qed
qed

lemma get_largest_none_only_without_chunks:
  assumes "get_largest_exchange_rate_increase_and_decrease df_iter = Inr result"
    and "(change_type, x) \<in> set result" and "curr_code x = KNone"
  shows "df_iter = []"
proof (rule ccontr)
  assume ne: "df_iter \<noteq> []"
  let ?init = "\<lparr>curr_code = KNone, cm_value = NegInf\<rparr> :: extremum"
  from assms(1) obtain inc' dec' lc' where
    a: "analyse_chunks (?init, ?init, \<lparr>curr_code = KNone, cm_value = None\<rparr>) df_iter = Inr (inc', dec', lc')"
    and res: "result = [(''max_recorded_increase'', inc'), (''max_recorded_decrease'', dec')]"
    by (auto simp: get_largest_exchange_rate_increase_and_decrease_def split: sum.splits)
  have "curr_code inc' \<noteq> KNone \<and> curr_code dec' \<noteq> KNone"
    using analyse_chunks_known[OF a _ _ ne] by simp
  with assms(2,3) res show False by auto
qed

lemma get_largest_no_chunks:
  "get_largest_exchange_rate_increase_and_decrease [] =
     Inr [(''max_recorded_increase'', \<lparr>curr_code = KNone, cm_value = NegInf\<rparr>),
          (''max_recorded_decrease'', \<lparr>curr_code = KNone, cm_value = NegInf\<rparr>)]"
  by (simp add: get_largest_exchange_rate_increase_and_decrease_def)

lemma get_largest_empty_frame:
  "get_largest_exchange_rate_increase_and_decrease ([] # rest) = Inl IndexError"
  by (simp add: get_largest_exchange_rate_increase_and_decrease_def chunk_step_def
      groupby_currency_code_def)

lemma carry_never_merged:
  "curr_code lc = KNone \<or> (\<exists>name. curr_code lc = KStr name) \<Longrightarrow>
   group_step lc acc g = group_step \<lparr>curr_code = KNone, cm_value = None\<rparr> acc g"
  by (auto simp: group_step_def Let_def split: prod.splits)

lemma get_largest_split_series:
  "get_largest_exchange_rate_increase_and_decrease
     [series ''EUR'' (ymd 2025 1 1) [1, 2, 3, 4, 5], series ''EUR'' (ymd 2025 1 6) [6, 7, 8, 9, 10]] =
   Inr [(''max_recorded_increase'', \<lparr>curr_code = KTuple [''EUR''], cm_value = Fin 4\<rparr>),
        (''max_recorded_decrease'', \<lparr>curr_code = KTuple [''EUR''], cm_value = Fin 0\<rparr>)]"
  by (simp add: get_largest_exchange_rate_increase_and_decrease_def chunk_step_def group_step_def
      groupby_currency_code_def find_largest_increase_and_decrease_def py_min_def py_max_def
      Let_def pd_concat_def)

lemma get_largest_unsplit_series:
  "get_largest_exchange_rate_increase_and_decrease
     [series ''EUR'' (ymd 2025 1 1) [1, 2, 3, 4, 5, 6, 7, 8, 9, 10]] =
   Inr [(''max_recorded_increase'', \<lparr>curr_code = KTuple [''EUR''], cm_value = Fin 9\<rparr>),
        (''max_recorded_decrease'', \<lparr>curr_code = KTuple [''EUR''], cm_value = Fin 0\<rparr>)]"
  by (simp add: get_largest_exchange_rate_increase_and_decrease_def chunk_step_def group_step_def
      groupby_currency_code_def find_largest_increase_and_decrease_def py_min_def py_max_def
      Let_def pd_concat_def)

lemma series_append_example:
  "series ''EUR'' (ymd 2025 1 1) [1, 2, 3, 4, 5] @ series ''EUR'' (ymd 2025 1 6) [6, 7, 8, 9, 10] =
   series ''EUR'' (ymd 2025 1 1) [1, 2, 3, 4, 5, 6, 7, 8, 9, 10]"
  by (simp add: ymd_simps ymd_def days_before_year_def days_before_month_def is_leap_def)

text \<open>
  Claim C3. The ten-day series of one currency with the rates 1 to 10, split into two
  chunks after the fifth day: the key of a group is a tuple, the carried
  \<^verbatim>\<open>last_chunk.curr_code\<close> a string, so the rows carried from the first chunk are never
  put in front of the group of the second one. Each half is analysed on its own and the
  largest increase comes out as 4; the unsplit series gives 9.
\<close>

theorem C3_split_series_extrema:
  "get_largest_exchange_rate_increase_and_decrease
     [series ''EUR'' (ymd 2025 1 1) [1, 2, 3, 4, 5], series ''EUR'' (ymd 2025 1 6) [6, 7, 8, 9, 10]] =
   Inr [(''max_recorded_increase'', \<lparr>curr_code = KTuple [''EUR''], cm_value = Fin 4\<rparr>),
        (''max_recorded_decrease'', \<lparr>curr_code = KTuple [''EUR''], cm_value = Fin 0\<rparr>)]
   \<and> get_largest_exchange_rate_increase_and_decrease
     [series ''EUR'' (ymd 2025 1 1) [1, 2, 3, 4, 5] @ series ''EUR'' (ymd 2025 1 6) [6, 7, 8, 9, 10]] =
   Inr [(''max_recorded_increase'', \<lparr>curr_code = KTuple [''EUR''], cm_value = Fin 9\<rparr>),
        (''max_recorded_decrease'', \<lparr>curr_code = KTuple [''EUR''], cm_value = Fin 0\<rparr>)]"
  using get_largest_split_series get_largest_unsplit_series
  by (simp only: series_append_example)

text \<open>
  Claim C10. For every rate series, the empty one included, both values returned by
  \<^verbatim>\<open>_find_largest_increase_and_decrease\<close> are finite and at least 0, so each is larger
  than minus infinity; the first group examined from the initial state therefore sets
  both global extrema to its own currency; and when
  \<^verbatim>\<open>_get_largest_exchange_rate_increase_and_decrease\<close> returns an extremum whose currency
  code is \<^verbatim>\<open>None\<close>, the stream had no chunk, hence no record.
\<close>

theorem C10_extrema_nonnegative:
  "(\<exists>a b. find_largest_increase_and_decrease rs = (Fin a, Fin b) \<and> 0 \<le> a \<and> 0 \<le> b)
   \<and> flt NegInf (fst (find_largest_increase_and_decrease rs))
   \<and> flt NegInf (snd (find_largest_increase_and_decrease rs))
   \<and> (\<exists>a b. group_step lc
          (\<lparr>curr_code = KNone, cm_value = NegInf\<rparr>, \<lparr>curr_code = KNone, cm_value = NegInf\<rparr>)
          (k, group_df) =
        (\<lparr>curr_code = KTuple [k], cm_value = Fin a\<rparr>, \<lparr>curr_code = KTuple [k], cm_value = Fin b\<rparr>))
   \<and> (get_largest_exchange_rate_increase_and_decrease df_iter = Inr result
        \<and> (change_type, x) \<in> set result \<and> curr_code x = KNone
        \<longrightarrow> df_iter = [] \<and> concat df_iter = [])"
proof -
  obtain a b where ab: "find_largest_increase_and_decrease rs = (Fin a, Fin b)" "0 \<le> a" "0 \<le> b"
    using find_largest_nonneg by blast
  have 1: "\<exists>a b. find_largest_increase_and_decrease rs = (Fin a, Fin b) \<and> 0 \<le> a \<and> 0 \<le> b"
    using ab by blast
  have 2: "flt NegInf (fst (find_largest_increase_and_decrease rs))"
    "flt NegInf (snd (find_largest_increase_and_decrease rs))"
    using ab by simp_all
  have 3: "get_largest_exchange_rate_increase_and_decrease df_iter = Inr result
        \<and> (change_type, x) \<in> set result \<and> curr_code x = KNone
        \<longrightarrow> df_iter = [] \<and> concat df_iter = []"
    using get_largest_none_only_without_chunks[of df_iter result change_type x] by auto
  from 1 2 3 group_step_first[of lc k group_df] show ?thesis by blast
qed

theorem C10_witness_no_chunks:
  "get_largest_exchange_rate_increase_and_decrease [] =
     Inr [(''max_recorded_increase'', \<lparr>curr_code = KNone, cm_value = NegInf\<rparr>),
          (''max_recorded_decrease'', \<lparr>curr_code = KNone, cm_value = NegInf\<rparr>)]
   \<and> (\<exists>a b. find_largest_increase_and_decrease [3, 2, 1] = (Fin a, Fin b) \<and> 0 \<le> a \<and> 0 \<le> b)
   \<and> concat ([] :: rate_record list list) = []"
  using C10_extrema_nonnegative[of "[3, 2, 1]" "\<lparr>curr_code = KNone, cm_value = None\<rparr>" "''EUR''" "[]" "[]"
      "[(''max_recorded_increase'', \<lparr>curr_code = KNone, cm_value = NegInf\<rparr>),
        (''max_recorded_decrease'', \<lparr>curr_code = KNone, cm_value = NegInf\<rparr>)]"
      "''max_recorded_increase''" "\<lparr>curr_code = KNone, cm_value = NegInf\<rparr>"]
    get_largest_no_chunks
  by simp

section \<open>Properties of the data collection\<close>




















lemma response_without_rates_example:
  "gather_data_for_date_range (\<lambda>q. JsonDict (CurrencyRates ''USD'' [])) Map.empty [[]]
     (ymd 2025 1 1) (ymd 2025 1 3) (Some [''USD'']) = Inl OperationalError"
  by (simp add: gather_data_for_date_range_def calculate_missing_date_intervals_def
      collect_missing_data_from_nbp_api_def request_data_from_nbp_database_def chunk_requests_def
      split_into_chunks_def max_len_def send_request_to_nbp_api_def ymd_simps
      align_json_data_with_database_model_def reformat_json_for_single_currency_exchange_rates_def
      DatabaseOp_insert_empty)




section \<open>Properties of the range chunker\<close>

text \<open>
  What the chunker does for every range: a range of at most 93 days is requested as it
  is; a longer one is requested in ascending, disjoint chunks of at most 93 dates each
  that cover the range up to its end date, or only up to the day before it when the span
  is a multiple of 93.
\<close>

lemma split_into_chunks_long_eq:
  "e - s > max_len \<Longrightarrow>
   split_into_chunks (s, e) = map (chunk_at s e) [0..<nat (ceil_div (e - s) max_len)]"
  by (auto simp: split_into_chunks_def chunk_at_def Let_def min_def)

lemma split_into_chunks_short: "e - s \<le> max_len \<Longrightarrow> split_into_chunks (s, e) = [(s, e)]"
  by (simp add: split_into_chunks_def)

lemma ceil_div_bounds:
  "a \<le> max_len * ceil_div a max_len" "max_len * (ceil_div a max_len - 1) < a"
  "(max_len * ceil_div a max_len = a) = (a mod max_len = 0)"
proof -
  define q where "q = (- a) div max_len"
  define r where "r = (- a) mod max_len"
  have d: "- a = max_len * q + r" unfolding q_def r_def by simp
  have r: "0 \<le> r" "r < max_len" unfolding r_def by (simp_all add: max_len_def)
  have c: "ceil_div a max_len = - q" unfolding ceil_div_def q_def by simp
  have m: "max_len * (- q) = a + r" "max_len * (- q - 1) = a + r - max_len"
    using d by (simp_all add: algebra_simps)
  show "a \<le> max_len * ceil_div a max_len" unfolding c m using r by simp
  show "max_len * (ceil_div a max_len - 1) < a" unfolding c m using r by simp
  have "(a mod max_len = 0) = (r = 0)"
    unfolding r_def by (simp add: mod_minus_eq dvd_eq_mod_eq_0[symmetric])
  then show "(max_len * ceil_div a max_len = a) = (a mod max_len = 0)"
    unfolding c m by simp
qed

lemma dates_of_chunks:
  "m = 0 \<or> max_len * (int m - 1) \<le> e - s \<Longrightarrow>
   dates_of (map (chunk_at s e) [0..<m]) = {s..min (s + max_len * int m - 1) e}"
proof (induction m)
  case 0
  show ?case by (simp add: dates_of_simps)
next
  case (Suc m)
  from Suc.prems have le: "max_len * int m \<le> e - s" by simp
  have "m = 0 \<or> max_len * (int m - 1) \<le> e - s"
    using le by (simp add: max_len_def)
  from Suc.IH[OF this] have ih: "dates_of (map (chunk_at s e) [0..<m]) = {s..min (s + max_len * int m - 1) e}" .
  have "dates_of (map (chunk_at s e) [0..<Suc m]) =
      dates_of (map (chunk_at s e) [0..<m]) \<union> {s + max_len * int m..min (s + (max_len * (int m + 1) - 1)) e}"
    by (simp add: dates_of_simps chunk_at_def)
  also have "\<dots> = {s..min (s + max_len * int m - 1) e} \<union> {s + max_len * int m..min (s + (max_len * (int m + 1) - 1)) e}"
    by (simp only: ih)
  also have "\<dots> = {s..min (s + max_len * int (Suc m) - 1) e}"
    using le by (auto simp: max_len_def)
  finally show ?case .
qed

lemma ascending_chunks:
  "m = 0 \<or> max_len * (int m - 1) \<le> e - s \<Longrightarrow>
   ascending_disjoint (map (chunk_at s e) [0..<m]) \<and>
   (\<forall>(c, d) \<in> set (map (chunk_at s e) [0..<m]). d < s + max_len * int m \<and> d - c < max_len)"
proof (induction m)
  case 0
  show ?case by (simp add: ascending_disjoint_simps)
next
  case (Suc m)
  from Suc.prems have le: "max_len * int m \<le> e - s" by simp
  have "m = 0 \<or> max_len * (int m - 1) \<le> e - s"
    using le by (simp add: max_len_def)
  from Suc.IH[OF this] have ih1: "ascending_disjoint (map (chunk_at s e) [0..<m])"
    and ih2: "\<forall>(c, d) \<in> set (map (chunk_at s e) [0..<m]). d < s + max_len * int m \<and> d - c < max_len"
    by simp_all
  have m: "map (chunk_at s e) [0..<Suc m] =
      map (chunk_at s e) [0..<m] @ [(s + max_len * int m, min (s + (max_len * (int m + 1) - 1)) e)]"
    by (simp add: chunk_at_def)
  have 1: "ascending_disjoint (map (chunk_at s e) [0..<Suc m])"
    unfolding m using ih1 ih2 le by (auto simp: ascending_disjoint_simps max_len_def)
  have 2: "\<forall>(c, d) \<in> set (map (chunk_at s e) [0..<Suc m]). d < s + max_len * int (Suc m) \<and> d - c < max_len"
    unfolding m using ih2 le by (auto simp: max_len_def)
  from 1 2 show ?case by blast
qed

lemma split_into_chunks_long:
  assumes "max_len < e - s"
  shows "dates_of (split_into_chunks (s, e)) =
           (if (e - s) mod max_len = 0 then {s..e - 1} else {s..e})"
    and "ascending_disjoint (split_into_chunks (s, e))"
    and "\<forall>(c, d) \<in> set (split_into_chunks (s, e)). d - c < max_len"
proof -
  let ?n = "ceil_div (e - s) max_len"
  have pos: "0 < ?n" using ceil_div_bounds(1)[of "e - s"] assms by (simp add: max_len_def) 
  have n: "int (nat ?n) = ?n" using pos by simp
  have pre: "nat ?n = 0 \<or> max_len * (int (nat ?n) - 1) \<le> e - s"
    using ceil_div_bounds(2)[of "e - s"] n by simp
  have eq: "split_into_chunks (s, e) = map (chunk_at s e) [0..<nat ?n]"
    using assms by (rule split_into_chunks_long_eq)
  show "ascending_disjoint (split_into_chunks (s, e))"
    and "\<forall>(c, d) \<in> set (split_into_chunks (s, e)). d - c < max_len"
    unfolding eq using ascending_chunks[OF pre] by blast+
  have "dates_of (split_into_chunks (s, e)) = {s..min (s + max_len * ?n - 1) e}"
    unfolding eq dates_of_chunks[OF pre] n ..
  also have "\<dots> = (if (e - s) mod max_len = 0 then {s..e - 1} else {s..e})"
  proof (cases "(e - s) mod max_len = 0")
    case True
    then have "max_len * ?n = e - s" using ceil_div_bounds(3)[of "e - s"] by simp
    then have "s + max_len * ?n - 1 = e - 1" by simp
    with True show ?thesis by simp
  next
    case False
    then have "max_len * ?n \<noteq> e - s" using ceil_div_bounds(3)[of "e - s"] by simp
    with ceil_div_bounds(1)[of "e - s"] have "e \<le> s + max_len * ?n - 1" by simp
    with False show ?thesis by (simp add: min_def)
  qed
  finally show "dates_of (split_into_chunks (s, e)) =
           (if (e - s) mod max_len = 0 then {s..e - 1} else {s..e})" .
qed

lemma upt_0_2: "[0..<2] = [0, 1]"
  by (simp add: numeral_2_eq_2)

lemma ymd_simps_chunks:
  "ymd 2025 4 3 = 739344" "ymd 2025 4 4 = 739345" "ymd 2025 7 5 = 739437"
  "ymd 2025 7 6 = 739438"
  by (simp_all add: ymd_def days_before_year_def days_before_month_def is_leap_def)

text \<open>
  Claim C2. The range 2025-01-01..2025-07-06 spans 186 = 2 * 93 days, more than the
  maximum. The number of chunks is \<^verbatim>\<open>ceil(186 / 93) = 2\<close>, the second chunk ends at
  \<open>start + 2 * 93 - 1\<close>, the day before the end date, and no request is made for
  2025-07-06 itself.
\<close>

theorem C2_end_date_dropped:
  "ymd 2025 7 6 - ymd 2025 1 1 = 2 * max_len
   \<and> split_into_chunks (ymd 2025 1 1, ymd 2025 7 6) =
       [(ymd 2025 1 1, ymd 2025 4 3), (ymd 2025 4 4, ymd 2025 7 5)]
   \<and> ymd 2025 7 6 \<notin> dates_of (split_into_chunks (ymd 2025 1 1, ymd 2025 7 6))"
  by (simp add: split_into_chunks_def max_len_def ceil_div_def Let_def ymd_simps
      ymd_simps_chunks upt_0_2 dates_of_def)

end
